theory Spec2Isabelle
  imports Main
begin

section \<open>SplitModel: partitioning an ONNX graph (olive/passes/onnx/split.py)\<close>

text \<open>
  The development embeds \<^verbatim>\<open>SplitModel._run_for_config\<close>. The pass reads the graph only
  through the queries of \<^verbatim>\<open>OnnxDAG\<close>; that class is not part of the embedded file, so the
  graph is a record of the answers of those queries (after \<^verbatim>\<open>remove_identity_nodes\<close>);
  a theorem says what it assumes about the answers and holds for every graph otherwise.
  Python exceptions are values of \<open>py_error\<close>; every loop of the source is a
  \<open>for_each\<close> over the list it iterates.
\<close>

subsection \<open>Errors and sequential loops\<close>

datatype py_error = ValueError | KeyError | IndexError | TypeError

text \<open>A \<^verbatim>\<open>for\<close> loop whose body may raise: the first error leaves the loop.\<close>

fun for_each :: "('a \<Rightarrow> 's \<Rightarrow> py_error + 's) \<Rightarrow> 'a list \<Rightarrow> 's \<Rightarrow> py_error + 's" where
  "for_each body [] s = Inr s"
| "for_each body (x # xs) s =
     (case body x s of Inl e \<Rightarrow> Inl e | Inr s' \<Rightarrow> for_each body xs s')"

text \<open>\<^verbatim>\<open>xs[i]\<close> on a Python list: a negative index counts from the end.\<close>

definition py_index :: "'a list \<Rightarrow> int \<Rightarrow> py_error + nat" where
  "py_index xs i =
     (if 0 \<le> i \<and> i < int (length xs) then Inr (nat i)
      else if i < 0 \<and> - int (length xs) \<le> i then Inr (nat (int (length xs) + i))
      else Inl IndexError)"

text \<open>\<^verbatim>\<open>min\<close> and \<^verbatim>\<open>max\<close> of a list; the source calls them on non-empty lists only.\<close>

fun py_min :: "int list \<Rightarrow> int" where
  "py_min [] = 0"
| "py_min (x # xs) = fold min xs x"

fun py_max :: "int list \<Rightarrow> int" where
  "py_max [] = 0"
| "py_max (x # xs) = fold max xs x"

subsection \<open>The graph as seen through OnnxDAG's queries\<close>

text \<open>
  \<open>ValueInfoProto name ts\<close> is value-info for a tensor name, \<open>ts = None\<close> when it
  carries no type (\<^verbatim>\<open>onnx.helper.make_empty_tensor_value_info\<close>); \<open>TensorProto\<close> is an
  initializer with its data. The payloads are opaque to the pass.
\<close>

datatype proto = ValueInfoProto string "nat option" | TensorProto string nat

fun proto_name :: "proto \<Rightarrow> string" where
  "proto_name (ValueInfoProto n _) = n"
| "proto_name (TensorProto n _) = n"

definition make_empty_tensor_value_info :: "string \<Rightarrow> proto" where
  "make_empty_tensor_value_info name = ValueInfoProto name None"

text \<open>
  The boolean argument of \<open>get_consumers\<close> and \<open>get_parents\<close> is the source's second
  argument (return the special input and output markers too); \<open>get_consumers\<close> takes a
  node name or a tensor name, as in the source. \<open>get_io_proto n\<close> is
  \<^verbatim>\<open>dag.get_io(n).proto\<close>.
\<close>

record onnx_dag =
  topological_sort :: "string list"
  get_node_op_type :: "string \<Rightarrow> string"
  get_consumers :: "string \<Rightarrow> bool \<Rightarrow> string list"
  get_parents :: "string \<Rightarrow> bool \<Rightarrow> string list"
  get_node_inputs :: "string \<Rightarrow> string list"
  get_node_outputs :: "string \<Rightarrow> string list"
  is_constant_input :: "string \<Rightarrow> bool"
  is_input_consumer :: "string \<Rightarrow> bool"
  is_output_producer :: "string \<Rightarrow> bool"
  is_input :: "string \<Rightarrow> bool"
  is_initializer :: "string \<Rightarrow> bool"
  get_io_proto :: "string \<Rightarrow> proto list"

subsection \<open>Namespaces and the split assignment map\<close>

text \<open>\<^verbatim>\<open>s.split(sep)\<close> for a one-character separator: never empty, keeps empty pieces.\<close>

fun split_on :: "char \<Rightarrow> string \<Rightarrow> string list" where
  "split_on sep [] = [[]]"
| "split_on sep (c # cs) =
     (if c = sep then [] # split_on sep cs
      else (case split_on sep cs of [] \<Rightarrow> [[c]] | w # ws \<Rightarrow> (c # w) # ws))"

text \<open>\<^verbatim>\<open>".".join(parts)\<close>.\<close>

fun join_dot :: "string list \<Rightarrow> string" where
  "join_dot [] = []"
| "join_dot [w] = w"
| "join_dot (w # ws) = w @ CHR ''.'' # join_dot ws"

text \<open>
  Lines 85-86: \<^verbatim>\<open>node_name.replace("/", ".").lstrip(".").split(".")\<close>, then the first
  \<open>namespace_depth\<close> components joined by dots.
\<close>

definition name_components :: "string \<Rightarrow> string list" where
  "name_components node_name =
     split_on CHR ''.''
       (dropWhile (\<lambda>c. c = CHR ''.'')
          (map (\<lambda>c. if c = CHR ''/'' then CHR ''.'' else c) node_name))"

definition namespace_of :: "nat \<Rightarrow> string \<Rightarrow> string" where
  "namespace_of depth node_name = join_dot (take depth (name_components node_name))"

text \<open>
  The split assignment map is the dict parsed from the model metadata, as its items in
  insertion order (keys distinct). Line 60: \<^verbatim>\<open>len(np.unique(list(values)))\<close>; line 61:
  the number of dot-separated components of the first key.
\<close>

type_synonym split_assignments = "(string \<times> int) list"

definition num_splits :: "split_assignments \<Rightarrow> nat" where
  "num_splits sa = length (remdups (map snd sa))"

definition key_depth :: "string \<Rightarrow> nat" where
  "key_depth k = length (split_on CHR ''.'' k)"

definition namespace_depth :: "split_assignments \<Rightarrow> nat" where
  "namespace_depth sa = key_depth (fst (hd sa))"

subsection \<open>The assignment phase (lines 75-185)\<close>

text \<open>
  Until the constants are resolved every value of \<^verbatim>\<open>node_assignments\<close> is an integer;
  afterwards a constant node holds a list of integers. The first is the type
  \<open>string \<rightharpoonup> int\<close>, the second \<open>string \<rightharpoonup> assignment\<close>.
\<close>

datatype assignment = Single int | Multi "int list"

text \<open>
  Lines 79-88: the direct pass; the state is (node_assignments, constant_nodes).
  \<^verbatim>\<open>constant_nodes\<close> is a Python set: a list without duplicates here, in the order of
  insertion.
\<close>

definition direct_step ::
  "onnx_dag \<Rightarrow> split_assignments \<Rightarrow> nat \<Rightarrow> string \<Rightarrow>
   (string \<rightharpoonup> int) \<times> string list \<Rightarrow> (string \<rightharpoonup> int) \<times> string list" where
  "direct_step dag sa depth node_name st =
     (case st of (na, constant_nodes) \<Rightarrow>
        if get_node_op_type dag node_name = ''Constant''
        then (na, if node_name \<in> set constant_nodes then constant_nodes
                  else constant_nodes @ [node_name])
        else (case map_of sa (namespace_of depth node_name) of
                Some v \<Rightarrow> (na(node_name \<mapsto> v), constant_nodes)
              | None \<Rightarrow> (na, constant_nodes)))"

definition direct_pass ::
  "onnx_dag \<Rightarrow> split_assignments \<Rightarrow> (string \<rightharpoonup> int) \<times> string list" where
  "direct_pass dag sa =
     fold (direct_step dag sa (namespace_depth sa)) (topological_sort dag) (Map.empty, [])"

text \<open>
  Lines 98-102: the comprehension reads \<^verbatim>\<open>next_split[child_name]\<close> for every consumer, a
  KeyError when the consumer has no entry, and keeps the values that are not None.
\<close>

fun child_splits :: "(string \<rightharpoonup> int option) \<Rightarrow> string list \<Rightarrow> py_error + int list" where
  "child_splits ns [] = Inr []"
| "child_splits ns (c # cs) =
     (case ns c of
        None \<Rightarrow> Inl KeyError
      | Some v \<Rightarrow>
          (case child_splits ns cs of
             Inl e \<Rightarrow> Inl e
           | Inr vs \<Rightarrow> Inr (case v of None \<Rightarrow> vs | Some i \<Rightarrow> i # vs)))"

text \<open>Lines 93-106: one node of the bottom-up pass. \<open>Some None\<close> is the entry None.\<close>

definition next_split_step ::
  "onnx_dag \<Rightarrow> (string \<rightharpoonup> int) \<Rightarrow> string list \<Rightarrow> string \<Rightarrow>
   (string \<rightharpoonup> int option) \<Rightarrow> py_error + (string \<rightharpoonup> int option)" where
  "next_split_step dag na constant_nodes node_name ns =
     (if na node_name \<noteq> None \<or> node_name \<in> set constant_nodes then Inr ns
      else (case child_splits ns (get_consumers dag node_name False) of
              Inl e \<Rightarrow> Inl e
            | Inr cs \<Rightarrow>
                Inr (ns(node_name \<mapsto> (if cs \<noteq> [] then Some (py_min cs) else None)))))"

definition next_split_pass ::
  "onnx_dag \<Rightarrow> (string \<rightharpoonup> int) \<Rightarrow> string list \<Rightarrow> py_error + (string \<rightharpoonup> int option)" where
  "next_split_pass dag na constant_nodes =
     for_each (next_split_step dag na constant_nodes) (rev (topological_sort dag))
       (map_option Some \<circ> na)"

text \<open>Lines 114-118 and 143-147: the assignments of the parents that have one.\<close>

definition parent_splits :: "onnx_dag \<Rightarrow> (string \<rightharpoonup> int) \<Rightarrow> string \<Rightarrow> int list" where
  "parent_splits dag na node_name = List.map_filter na (get_parents dag node_name False)"

text \<open>Lines 109-129: one node of the inclusive policy.\<close>

definition inclusive_step ::
  "onnx_dag \<Rightarrow> (string \<rightharpoonup> int option) \<Rightarrow> string list \<Rightarrow> string \<Rightarrow>
   (string \<rightharpoonup> int) \<Rightarrow> py_error + (string \<rightharpoonup> int)" where
  "inclusive_step dag ns constant_nodes node_name na =
     (if na node_name \<noteq> None \<or> node_name \<in> set constant_nodes then Inr na
      else if parent_splits dag na node_name \<noteq> []
      then Inr (na(node_name \<mapsto> py_max (parent_splits dag na node_name)))
      else (case ns node_name of
              None \<Rightarrow> Inl KeyError
            | Some (Some v) \<Rightarrow> Inr (na(node_name \<mapsto> v))
            | Some None \<Rightarrow> Inr (na(node_name \<mapsto> 0))))"

text \<open>Lines 134-154: one node of the first loop of the exclusive policy.\<close>

definition exclusive_step ::
  "onnx_dag \<Rightarrow> (string \<rightharpoonup> int option) \<Rightarrow> string list \<Rightarrow> string \<Rightarrow>
   (string \<rightharpoonup> int) \<Rightarrow> py_error + (string \<rightharpoonup> int)" where
  "exclusive_step dag ns constant_nodes node_name na =
     (if na node_name \<noteq> None \<or> node_name \<in> set constant_nodes then Inr na
      else (case ns node_name of
              None \<Rightarrow> Inl KeyError
            | Some None \<Rightarrow> Inr na
            | Some (Some v) \<Rightarrow>
                if parent_splits dag na node_name \<noteq> []
                then Inr (na(node_name \<mapsto> py_max (parent_splits dag na node_name)))
                else if list_all (is_constant_input dag) (get_node_inputs dag node_name)
                then Inr (na(node_name \<mapsto> v))
                else Inr na))"

text \<open>
  Lines 159-176: one node of the Cast loop. \<^verbatim>\<open>get_consumers(node_name, True)[0]\<close> is read
  only when the list has one element; \<^verbatim>\<open>get_parents(node_name, True)[0]\<close> raises
  IndexError on an empty list.
\<close>

definition cast_step ::
  "onnx_dag \<Rightarrow> string \<Rightarrow> (string \<rightharpoonup> int) \<Rightarrow> py_error + (string \<rightharpoonup> int)" where
  "cast_step dag node_name na =
     (if na node_name \<noteq> None \<or> get_node_op_type dag node_name \<noteq> ''Cast''
         \<or> length (get_consumers dag node_name True) \<noteq> 1
      then Inr na
      else if is_input_consumer dag node_name
              \<and> na (hd (get_consumers dag node_name True)) \<noteq> None
      then Inr (na(node_name := na (hd (get_consumers dag node_name True))))
      else (case get_parents dag node_name True of
              [] \<Rightarrow> Inl IndexError
            | parent_name # _ \<Rightarrow>
                if na parent_name \<noteq> None \<and> is_output_producer dag node_name
                then Inr (na(node_name := na parent_name))
                else Inr na))"

text \<open>
  Lines 179-185: one constant node. A consumer whose assignment is a list cannot be
  added to the set \<^verbatim>\<open>splits\<close> (unhashable): TypeError. The set is kept as the list of
  its distinct elements in ascending order, which is the order in which
  \<^verbatim>\<open>list(splits)\<close> lists a set of small non-negative integers; Python does not specify
  that order, and the theorems below speak of the set of the list only.
\<close>

definition set_add :: "int \<Rightarrow> int list \<Rightarrow> int list" where
  "set_add v splits = (if v \<in> set splits then splits else insort v splits)"

fun collect_splits ::
  "(string \<rightharpoonup> assignment) \<Rightarrow> string list \<Rightarrow> int list \<Rightarrow> py_error + int list" where
  "collect_splits na [] splits = Inr splits"
| "collect_splits na (consumer # cs) splits =
     (case na consumer of
        None \<Rightarrow> collect_splits na cs splits
      | Some (Single v) \<Rightarrow> collect_splits na cs (set_add v splits)
      | Some (Multi _) \<Rightarrow> Inl TypeError)"

definition constant_step ::
  "onnx_dag \<Rightarrow> string \<Rightarrow> (string \<rightharpoonup> assignment) \<Rightarrow> py_error + (string \<rightharpoonup> assignment)" where
  "constant_step dag node_name na =
     (case collect_splits na (get_consumers dag node_name False) [] of
        Inl e \<Rightarrow> Inl e
      | Inr splits \<Rightarrow> Inr (if splits \<noteq> [] then na(node_name \<mapsto> Multi splits) else na))"

text \<open>
  Lines 108-176: the policy loops.
\<close>

definition policy_pass ::
  "onnx_dag \<Rightarrow> bool \<Rightarrow> (string \<rightharpoonup> int option) \<Rightarrow> string list \<Rightarrow>
   (string \<rightharpoonup> int) \<Rightarrow> py_error + (string \<rightharpoonup> int)" where
  "policy_pass dag include_all_nodes ns constant_nodes na =
     (if include_all_nodes
      then for_each (inclusive_step dag ns constant_nodes) (topological_sort dag) na
      else (case for_each (exclusive_step dag ns constant_nodes) (topological_sort dag) na of
              Inl e \<Rightarrow> Inl e
            | Inr na1 \<Rightarrow> for_each (cast_step dag) (topological_sort dag) na1))"

text \<open>Lines 75-185 together: the final \<^verbatim>\<open>node_assignments\<close>.\<close>

definition assign_nodes ::
  "onnx_dag \<Rightarrow> split_assignments \<Rightarrow> bool \<Rightarrow> py_error + (string \<rightharpoonup> assignment)" where
  "assign_nodes dag sa include_all_nodes =
     (case direct_pass dag sa of (na0, constant_nodes) \<Rightarrow>
        (case next_split_pass dag na0 constant_nodes of
           Inl e \<Rightarrow> Inl e
         | Inr ns \<Rightarrow>
             (case policy_pass dag include_all_nodes ns constant_nodes na0 of
                Inl e \<Rightarrow> Inl e
              | Inr na \<Rightarrow>
                  for_each (constant_step dag) constant_nodes
                    (map_option Single \<circ> na))))"

subsection \<open>Materializing the sub-graphs (lines 187-252)\<close>

text \<open>
  A sub-graph under construction is the sequence of builder calls the pass has made on
  it (the graph index argument is always 0 and is left out; the booleans are
  \<^verbatim>\<open>keep_initializer\<close>, \<^verbatim>\<open>keep_input\<close> and \<^verbatim>\<open>overwrite\<close>). \<open>Add_node n\<close> is
  \<^verbatim>\<open>add_node(dag.get_node_proto(n), 0)\<close>.
\<close>

datatype builder_call =
    Add_input proto bool
  | Add_initializer proto bool
  | Add_node string
  | Make_output string
  | Add_value_info proto bool
  | Update

type_synonym split_dag = "builder_call list"

text \<open>
  Modelled from the spec: \<^verbatim>\<open>OnnxDAG.is_io\<close> on a sub-graph under construction is
  missing. Section 4.3 of the specification asks whether a name is "not yet present in
  sub-graph p"; a name is present once it was added as an input or an initializer, or is
  an output of a node that was added.
\<close>

fun call_ios :: "onnx_dag \<Rightarrow> builder_call \<Rightarrow> string list" where
  "call_ios dag (Add_input p _) = [proto_name p]"
| "call_ios dag (Add_initializer p _) = [proto_name p]"
| "call_ios dag (Add_node n) = get_node_outputs dag n"
| "call_ios dag (Make_output _) = []"
| "call_ios dag (Add_value_info _ _) = []"
| "call_ios dag Update = []"

definition is_io :: "onnx_dag \<Rightarrow> split_dag \<Rightarrow> string \<Rightarrow> bool" where
  "is_io dag sd name = list_ex (\<lambda>c. name \<in> set (call_ios dag c)) sd"

text \<open>A builder call on \<^verbatim>\<open>split_dags[k]\<close>.\<close>

definition call :: "nat \<Rightarrow> builder_call \<Rightarrow> split_dag list \<Rightarrow> split_dag list" where
  "call k c sds = sds[k := sds ! k @ [c]]"

text \<open>
  \<^verbatim>\<open>missing_vi\<close> is a \<^verbatim>\<open>defaultdict(list)\<close>: its items in insertion order;
  \<^verbatim>\<open>missing_vi[name].append(split_id)\<close> creates the entry when the name is new.
\<close>

type_synonym missing_vi = "(string \<times> int list) list"

fun missing_vi_append :: "missing_vi \<Rightarrow> string \<Rightarrow> int \<Rightarrow> missing_vi" where
  "missing_vi_append [] name split_id = [(name, [split_id])]"
| "missing_vi_append ((k, ids) # m) name split_id =
     (if k = name then (k, ids @ [split_id]) # m
      else (k, ids) # missing_vi_append m name split_id)"

text \<open>
  Lines 199-223: one input name of a node of partition \<open>split_id\<close>, whose sub-graph is
  \<^verbatim>\<open>split_dags[k]\<close>. \<^verbatim>\<open>io.proto[0]\<close> and \<^verbatim>\<open>io.proto[-1]\<close> raise IndexError on an
  empty list.
\<close>

definition add_node_input ::
  "onnx_dag \<Rightarrow> int \<Rightarrow> nat \<Rightarrow> string \<Rightarrow> split_dag list \<times> missing_vi \<Rightarrow>
   py_error + split_dag list \<times> missing_vi" where
  "add_node_input dag split_id k input_name st =
     (case st of (sds, mvi) \<Rightarrow>
        if input_name = [] then Inr (sds, mvi)
        else if is_io dag (sds ! k) input_name then Inr (sds, mvi)
        else if is_input dag input_name \<or> is_initializer dag input_name
        then (case get_io_proto dag input_name of
                [] \<Rightarrow> Inl IndexError
              | p # ps \<Rightarrow>
                  let sds1 = (if is_input dag input_name
                              then call k (Add_input p True) sds else sds);
                      sds2 = (if is_initializer dag input_name
                              then call k (Add_initializer (last (p # ps)) True) sds1
                              else sds1)
                  in Inr (sds2, mvi))
        else (case get_io_proto dag input_name of
                [] \<Rightarrow>
                  Inr (call k (Add_input (make_empty_tensor_value_info input_name) False) sds,
                       missing_vi_append mvi input_name split_id)
              | p # _ \<Rightarrow> Inr (call k (Add_input p False) sds, mvi)))"

text \<open>Lines 229-248: one output name of a node of partition \<open>split_id\<close>.\<close>

definition process_output ::
  "onnx_dag \<Rightarrow> (string \<rightharpoonup> assignment) \<Rightarrow> int \<Rightarrow> nat \<Rightarrow> string \<Rightarrow>
   split_dag list \<times> missing_vi \<Rightarrow> py_error + split_dag list \<times> missing_vi" where
  "process_output dag na split_id k output_name st =
     (case st of (sds, mvi) \<Rightarrow>
        if output_name = [] then Inr (sds, mvi)
        else
          let is_output = list_ex (\<lambda>consumer. na consumer \<noteq> Some (Single split_id))
                            (get_consumers dag output_name True);
              sds1 = (if is_output then call k (Make_output output_name) sds else sds)
          in (case get_io_proto dag output_name of
                p # _ \<Rightarrow> Inr (call k (Add_value_info p False) sds1, mvi)
              | [] \<Rightarrow>
                  Inr (sds1, if is_output then missing_vi_append mvi output_name split_id
                             else mvi)))"

text \<open>Lines 251-252: a constant is added to every split of its list.\<close>

definition add_constant ::
  "string \<Rightarrow> int \<Rightarrow> split_dag list \<times> missing_vi \<Rightarrow> py_error + split_dag list \<times> missing_vi" where
  "add_constant node_name idx st =
     (case st of (sds, mvi) \<Rightarrow>
        (case py_index sds idx of
           Inl e \<Rightarrow> Inl e
         | Inr k \<Rightarrow> Inr (call k (Add_node node_name) sds, mvi)))"

text \<open>Lines 190-252: one node of the materialization loop.\<close>

definition materialize_node ::
  "onnx_dag \<Rightarrow> (string \<rightharpoonup> assignment) \<Rightarrow> string \<Rightarrow> split_dag list \<times> missing_vi \<Rightarrow>
   py_error + split_dag list \<times> missing_vi" where
  "materialize_node dag na node_name st =
     (case na node_name of
        None \<Rightarrow> Inr st
      | Some (Single split_id) \<Rightarrow>
          (case py_index (fst st) split_id of
             Inl e \<Rightarrow> Inl e
           | Inr k \<Rightarrow>
               (case for_each (add_node_input dag split_id k)
                       (get_node_inputs dag node_name) st of
                  Inl e \<Rightarrow> Inl e
                | Inr (sds, mvi) \<Rightarrow>
                    for_each (process_output dag na split_id k)
                      (get_node_outputs dag node_name)
                      (call k (Add_node node_name) sds, mvi)))
      | Some (Multi split_ids) \<Rightarrow> for_each (add_constant node_name) split_ids st)"

definition materialize ::
  "onnx_dag \<Rightarrow> (string \<rightharpoonup> assignment) \<Rightarrow> nat \<Rightarrow> py_error + split_dag list \<times> missing_vi" where
  "materialize dag na n =
     for_each (materialize_node dag na) (topological_sort dag) (replicate n [], [])"

subsection \<open>Missing value-info, saving, and the whole run (lines 254-280)\<close>

text \<open>
  The effects of a run outside its own data are a trace of events: the call of the
  shape inference, and each sub-graph handed to \<^verbatim>\<open>model_proto_to_olive_model\<close>. The
  shape inference is a parameter: \<open>infer_shapes m auto_merge name\<close> is the \<^verbatim>\<open>proto\<close>
  list of \<open>name\<close> in the graph inferred from the model \<open>m\<close>.
\<close>

datatype 'm event = Infer_shapes 'm bool | Save_model string split_dag

fun is_infer :: "'m event \<Rightarrow> bool" where
  "is_infer (Infer_shapes _ _) = True"
| "is_infer (Save_model _ _) = False"

text \<open>Lines 263-268: one entry of \<^verbatim>\<open>missing_vi\<close>.\<close>

definition overwrite_value_info ::
  "proto \<Rightarrow> int \<Rightarrow> split_dag list \<Rightarrow> py_error + split_dag list" where
  "overwrite_value_info p idx sds =
     (case py_index sds idx of
        Inl e \<Rightarrow> Inl e
      | Inr k \<Rightarrow> Inr (call k (Add_value_info p True) sds))"

definition backfill_entry ::
  "(string \<Rightarrow> proto list) \<Rightarrow> string \<times> int list \<Rightarrow> split_dag list \<Rightarrow>
   py_error + split_dag list" where
  "backfill_entry inferred entry sds =
     (case entry of (input_name, split_ids) \<Rightarrow>
        (case inferred input_name of
           [] \<Rightarrow> Inl ValueError
         | p # _ \<Rightarrow> for_each (overwrite_value_info p) split_ids sds))"

text \<open>Lines 254-268.\<close>

definition resolve_missing_vi ::
  "('m \<Rightarrow> bool \<Rightarrow> string \<Rightarrow> proto list) \<Rightarrow> 'm \<Rightarrow> split_dag list \<Rightarrow> missing_vi \<Rightarrow>
   'm event list \<times> (py_error + split_dag list)" where
  "resolve_missing_vi infer_shapes model_proto sds mvi =
     (if mvi \<noteq> []
      then ([Infer_shapes model_proto True],
            for_each (backfill_entry (infer_shapes model_proto True)) mvi sds)
      else ([], Inr sds))"

text \<open>\<^verbatim>\<open>f"split_{i}"\<close>: the decimal digits of the index.\<close>

fun show_nat :: "nat \<Rightarrow> string" where
  "show_nat n =
     (if n < 10 then [char_of (48 + n)]
      else show_nat (n div 10) @ [char_of (48 + n mod 10)])"

definition split_name :: "nat \<Rightarrow> string" where
  "split_name i = ''split_'' @ show_nat i"

text \<open>Lines 270-280: every sub-graph is updated and saved; the result lists them by name.\<close>

definition save_all :: "split_dag list \<Rightarrow> (string \<times> split_dag) list" where
  "save_all sds = map (\<lambda>(i, sd). (split_name i, sd @ [Update])) (enumerate 0 sds)"

definition finish ::
  "('m \<Rightarrow> bool \<Rightarrow> string \<Rightarrow> proto list) \<Rightarrow> 'm \<Rightarrow> split_dag list \<Rightarrow> missing_vi \<Rightarrow>
   'm event list \<times> (py_error + (string \<times> split_dag) list)" where
  "finish infer_shapes model_proto sds mvi =
     (case resolve_missing_vi infer_shapes model_proto sds mvi of
        (events, Inl e) \<Rightarrow> (events, Inl e)
      | (events, Inr sds') \<Rightarrow>
          (events @ map (\<lambda>(name, sd). Save_model name sd) (save_all sds'),
           Inr (save_all sds')))"

text \<open>
  The run from the parsed split assignment map on (line 55: an absent or empty map is a
  ValueError).
\<close>

definition run_for_config ::
  "('m \<Rightarrow> bool \<Rightarrow> string \<Rightarrow> proto list) \<Rightarrow> 'm \<Rightarrow> onnx_dag \<Rightarrow> split_assignments \<Rightarrow> bool \<Rightarrow>
   'm event list \<times> (py_error + (string \<times> split_dag) list)" where
  "run_for_config infer_shapes model_proto dag sa include_all_nodes =
     (if sa = [] then ([], Inl ValueError)
      else (case assign_nodes dag sa include_all_nodes of
              Inl e \<Rightarrow> ([], Inl e)
            | Inr na \<Rightarrow>
                (case materialize dag na (num_splits sa) of
                   Inl e \<Rightarrow> ([], Inl e)
                 | Inr (sds, mvi) \<Rightarrow> finish infer_shapes model_proto sds mvi)))"

text \<open>
  Where the calls of the materialization loop land. \<open>at_index L i j\<close>: in a list of
  length \<open>L\<close> the Python index \<open>i\<close> is position \<open>j\<close>. \<open>marks_output\<close> is the test of
  lines 230-240 on an output name; \<open>placed\<close> says that a node is added to sub-graph
  \<open>j\<close>, \<open>output_of\<close> that the node marks the name as output of sub-graph \<open>j\<close>.
\<close>

definition at_index :: "nat \<Rightarrow> int \<Rightarrow> nat \<Rightarrow> bool" where
  "at_index L i j = (py_index (replicate L ()) i = Inr j)"

definition marks_output :: "onnx_dag \<Rightarrow> (string \<rightharpoonup> assignment) \<Rightarrow> int \<Rightarrow> string \<Rightarrow> bool" where
  "marks_output dag na split_id output_name =
     (output_name \<noteq> [] \<and>
      list_ex (\<lambda>consumer. na consumer \<noteq> Some (Single split_id)) (get_consumers dag output_name True))"

definition placed :: "(string \<rightharpoonup> assignment) \<Rightarrow> nat \<Rightarrow> string \<Rightarrow> nat \<Rightarrow> bool" where
  "placed na L n j =
     (case na n of
        None \<Rightarrow> False
      | Some (Single p) \<Rightarrow> at_index L p j
      | Some (Multi ps) \<Rightarrow> list_ex (\<lambda>p. at_index L p j) ps)"

definition output_of :: "onnx_dag \<Rightarrow> (string \<rightharpoonup> assignment) \<Rightarrow> nat \<Rightarrow> string \<Rightarrow> string \<Rightarrow> nat \<Rightarrow> bool" where
  "output_of dag na L t n j =
     (case na n of
        Some (Single p) \<Rightarrow>
          at_index L p j \<and> t \<in> set (get_node_outputs dag n) \<and> marks_output dag na p t
      | _ \<Rightarrow> False)"

text \<open>The partitions of the assigned consumers of a node (lines 180-183).\<close>

definition consumer_splits :: "onnx_dag \<Rightarrow> (string \<rightharpoonup> assignment) \<Rightarrow> string \<Rightarrow> int set" where
  "consumer_splits dag na n = {v. \<exists>x\<in>set (get_consumers dag n False). na x = Some (Single v)}"


subsection \<open>Example graphs\<close>

text \<open>
  The chain \<open>x \<rightarrow> A \<rightarrow> a \<rightarrow> B \<rightarrow> b \<rightarrow> C \<rightarrow> c \<rightarrow> D \<rightarrow> d\<close>: \<open>x\<close> is the graph input, \<open>d\<close> the
  graph output, and no node is a Constant or a Cast.
\<close>

definition chain_dag :: onnx_dag where
  "chain_dag = \<lparr>
     topological_sort = [''A'', ''B'', ''C'', ''D''],
     get_node_op_type = (\<lambda>n. ''Relu''),
     get_consumers = (\<lambda>n special.
        if n = ''x'' then [''A'']
        else if n = ''A'' \<or> n = ''a'' then [''B'']
        else if n = ''B'' \<or> n = ''b'' then [''C'']
        else if n = ''C'' \<or> n = ''c'' then [''D'']
        else if (n = ''D'' \<or> n = ''d'') \<and> special then [''__output__'']
        else []),
     get_parents = (\<lambda>n special.
        if n = ''A'' \<and> special then [''__input__'']
        else if n = ''B'' then [''A'']
        else if n = ''C'' then [''B'']
        else if n = ''D'' then [''C'']
        else []),
     get_node_inputs = (\<lambda>n.
        if n = ''A'' then [''x''] else if n = ''B'' then [''a'']
        else if n = ''C'' then [''b''] else if n = ''D'' then [''c''] else []),
     get_node_outputs = (\<lambda>n.
        if n = ''A'' then [''a''] else if n = ''B'' then [''b'']
        else if n = ''C'' then [''c''] else if n = ''D'' then [''d''] else []),
     is_constant_input = (\<lambda>t. False),
     is_input_consumer = (\<lambda>n. n = ''A''),
     is_output_producer = (\<lambda>n. n = ''D''),
     is_input = (\<lambda>t. t = ''x''),
     is_initializer = (\<lambda>t. False),
     get_io_proto = (\<lambda>t.
        if t = ''x'' then [ValueInfoProto ''x'' (Some 0)]
        else if t = ''d'' then [ValueInfoProto ''d'' (Some 1)] else []) \<rparr>"

text \<open>
  A Constant node \<open>K\<close> whose output \<open>k\<close> feeds \<open>P\<close> and \<open>R\<close> of the chain
  \<open>x \<rightarrow> P \<rightarrow> p \<rightarrow> Q \<rightarrow> q \<rightarrow> R \<rightarrow> r\<close>.
\<close>

definition diamond_dag :: onnx_dag where
  "diamond_dag = \<lparr>
     topological_sort = [''K'', ''P'', ''Q'', ''R''],
     get_node_op_type = (\<lambda>n. if n = ''K'' then ''Constant'' else ''Add''),
     get_consumers = (\<lambda>n special.
        if n = ''K'' \<or> n = ''k'' then [''P'', ''R'']
        else if n = ''x'' then [''P'']
        else if n = ''P'' \<or> n = ''p'' then [''Q'']
        else if n = ''Q'' \<or> n = ''q'' then [''R'']
        else if (n = ''R'' \<or> n = ''r'') \<and> special then [''__output__'']
        else []),
     get_parents = (\<lambda>n special.
        if n = ''P'' then (if special then [''__input__'', ''K''] else [''K''])
        else if n = ''Q'' then [''P'']
        else if n = ''R'' then [''Q'', ''K'']
        else []),
     get_node_inputs = (\<lambda>n.
        if n = ''P'' then [''x'', ''k''] else if n = ''Q'' then [''p'']
        else if n = ''R'' then [''q'', ''k''] else []),
     get_node_outputs = (\<lambda>n.
        if n = ''K'' then [''k''] else if n = ''P'' then [''p'']
        else if n = ''Q'' then [''q''] else if n = ''R'' then [''r''] else []),
     is_constant_input = (\<lambda>t. t = ''k''),
     is_input_consumer = (\<lambda>n. n = ''P''),
     is_output_producer = (\<lambda>n. n = ''R''),
     is_input = (\<lambda>t. t = ''x''),
     is_initializer = (\<lambda>t. False),
     get_io_proto = (\<lambda>t.
        if t = ''x'' then [ValueInfoProto ''x'' (Some 0)]
        else if t = ''r'' then [ValueInfoProto ''r'' (Some 1)] else []) \<rparr>"

text \<open>Two shape-inference collaborators: one infers nothing, one types every name.\<close>

definition infer_nothing :: "unit \<Rightarrow> bool \<Rightarrow> string \<Rightarrow> proto list" where
  "infer_nothing m auto_merge name = []"

definition infer_all :: "unit \<Rightarrow> bool \<Rightarrow> string \<Rightarrow> proto list" where
  "infer_all m auto_merge name = [ValueInfoProto name (Some 7)]"

text \<open>The assignments of the chain under the inclusive policy, as a map.\<close>

definition chain_na :: "string \<rightharpoonup> assignment" where
  "chain_na = map_of [(''A'', Single 0), (''B'', Single 0), (''C'', Single 1), (''D'', Single 1)]"

text \<open>
  Two Cast nodes around a node \<open>B\<close>: \<open>x \<rightarrow> Ci \<rightarrow> ci \<rightarrow> B \<rightarrow> b \<rightarrow> Co \<rightarrow> y\<close>, with \<open>x\<close> the
  graph input and \<open>y\<close> the graph output.
\<close>

definition cast_dag :: onnx_dag where
  "cast_dag = \<lparr>
     topological_sort = [''Ci'', ''B'', ''Co''],
     get_node_op_type = (\<lambda>n. if n = ''B'' then ''Relu'' else ''Cast''),
     get_consumers = (\<lambda>n special.
        if n = ''x'' then [''Ci'']
        else if n = ''Ci'' \<or> n = ''ci'' then [''B'']
        else if n = ''B'' \<or> n = ''b'' then [''Co'']
        else if (n = ''Co'' \<or> n = ''y'') \<and> special then [''__output__'']
        else []),
     get_parents = (\<lambda>n special.
        if n = ''Ci'' \<and> special then [''__input__'']
        else if n = ''B'' then [''Ci'']
        else if n = ''Co'' then [''B'']
        else []),
     get_node_inputs = (\<lambda>n.
        if n = ''Ci'' then [''x''] else if n = ''B'' then [''ci'']
        else if n = ''Co'' then [''b''] else []),
     get_node_outputs = (\<lambda>n.
        if n = ''Ci'' then [''ci''] else if n = ''B'' then [''b'']
        else if n = ''Co'' then [''y''] else []),
     is_constant_input = (\<lambda>t. False),
     is_input_consumer = (\<lambda>n. n = ''Ci''),
     is_output_producer = (\<lambda>n. n = ''Co''),
     is_input = (\<lambda>t. t = ''x''),
     is_initializer = (\<lambda>t. False),
     get_io_proto = (\<lambda>t.
        if t = ''x'' then [ValueInfoProto ''x'' (Some 0)]
        else if t = ''y'' then [ValueInfoProto ''y'' (Some 1)] else []) \<rparr>"

text \<open>The assignments of \<open>diamond_dag\<close> under the inclusive policy, as a map.\<close>

definition diamond_na :: "string \<rightharpoonup> assignment" where
  "diamond_na = map_of [(''K'', Multi [0, 2]), (''P'', Single 0), (''Q'', Single 1),
     (''R'', Single 2)]"

text \<open>
  A Cast node \<open>X\<close> with two consumers after the node \<open>B\<close>:
  \<open>x \<rightarrow> B \<rightarrow> b \<rightarrow> X \<rightarrow> y\<close>, with \<open>y\<close> a graph output that the node \<open>E\<close> reads too.
\<close>

definition cast2_dag :: onnx_dag where
  "cast2_dag = \<lparr>
     topological_sort = [''B'', ''X'', ''E''],
     get_node_op_type = (\<lambda>n. if n = ''X'' then ''Cast'' else ''Relu''),
     get_consumers = (\<lambda>n special.
        if n = ''x'' then [''B'']
        else if n = ''B'' \<or> n = ''b'' then [''X'']
        else if n = ''X'' \<or> n = ''y'' then (if special then [''E'', ''__output__''] else [''E''])
        else if (n = ''E'' \<or> n = ''e'') \<and> special then [''__output__'']
        else []),
     get_parents = (\<lambda>n special.
        if n = ''B'' \<and> special then [''__input__'']
        else if n = ''X'' then [''B'']
        else if n = ''E'' then [''X'']
        else []),
     get_node_inputs = (\<lambda>n.
        if n = ''B'' then [''x''] else if n = ''X'' then [''b'']
        else if n = ''E'' then [''y''] else []),
     get_node_outputs = (\<lambda>n.
        if n = ''B'' then [''b''] else if n = ''X'' then [''y'']
        else if n = ''E'' then [''e''] else []),
     is_constant_input = (\<lambda>t. False),
     is_input_consumer = (\<lambda>n. n = ''B''),
     is_output_producer = (\<lambda>n. n = ''X'' \<or> n = ''E''),
     is_input = (\<lambda>t. t = ''x''),
     is_initializer = (\<lambda>t. False),
     get_io_proto = (\<lambda>t.
        if t = ''x'' then [ValueInfoProto ''x'' (Some 0)]
        else if t = ''y'' then [ValueInfoProto ''y'' (Some 1)]
        else if t = ''e'' then [ValueInfoProto ''e'' (Some 1)] else []) \<rparr>"

subsection \<open>Well-formed inputs\<close>

text \<open>
  The order is topological: the consumers of a node come later in it, and none of them
  is a Constant node (line 94: constants cannot be children of a node).
\<close>

fun consumers_later :: "onnx_dag \<Rightarrow> string list \<Rightarrow> bool" where
  "consumers_later dag [] = True"
| "consumers_later dag (n # ns) =
     (list_all (\<lambda>c. c \<in> set ns \<and> get_node_op_type dag c \<noteq> ''Constant'')
        (get_consumers dag n False)
      \<and> consumers_later dag ns)"

definition topological :: "onnx_dag \<Rightarrow> bool" where
  "topological dag = consumers_later dag (topological_sort dag)"

text \<open>
  The partitions used are \<open>0 .. num_splits - 1\<close> (section 3 of the specification, split
  assignment map).
\<close>

definition indices_in_range :: "split_assignments \<Rightarrow> bool" where
  "indices_in_range sa = list_all (\<lambda>v. 0 \<le> v \<and> v < int (num_splits sa)) (map snd sa)"

section \<open>Lemmas about the loops\<close>


lemma for_each_append:
  "for_each f (xs @ ys) s = (case for_each f xs s of Inl e \<Rightarrow> Inl e | Inr s' \<Rightarrow> for_each f ys s')"
  by (induction xs arbitrary: s) (auto split: sum.splits)

lemma for_each_preserves:
  assumes "for_each f xs s = Inr s'" and "P s"
    and "\<And>x s s'. x \<in> set xs \<Longrightarrow> P s \<Longrightarrow> f x s = Inr s' \<Longrightarrow> P s'"
  shows "P s'"
  using assms
proof (induction xs arbitrary: s)
  case Nil
  then show ?case by simp
next
  case (Cons x xs)
  from Cons.prems(1) obtain s1 where s1: "f x s = Inr s1" "for_each f xs s1 = Inr s'"
    by (auto split: sum.splits)
  have "P s1" using Cons.prems(2,3) s1(1) by (meson list.set_intros(1))
  then show ?case using Cons.IH[OF s1(2)] Cons.prems(3) by (meson list.set_intros(2))
qed

lemma fold_max_in: "fold max xs (x::int) \<in> set (x # xs)"
  by (induction xs arbitrary: x) (auto simp: max_def)

lemma fold_min_in: "fold min xs (x::int) \<in> set (x # xs)"
  by (induction xs arbitrary: x) (auto simp: min_def)

lemma py_max_in: "xs \<noteq> [] \<Longrightarrow> py_max xs \<in> set xs"
  using fold_max_in by (cases xs) auto

lemma py_min_in: "xs \<noteq> [] \<Longrightarrow> py_min xs \<in> set xs"
  using fold_min_in by (cases xs) auto

lemma parent_splits_in: "v \<in> set (parent_splits dag na n) \<Longrightarrow> \<exists>p. na p = Some v"
  by (auto simp: parent_splits_def List.map_filter_def)

subsection \<open>The direct pass\<close>

lemma direct_fold_na:
  "fst (fold (direct_step dag sa d) xs (na, cs)) n =
     (if n \<in> set xs \<and> get_node_op_type dag n \<noteq> ''Constant''
      then (case map_of sa (namespace_of d n) of Some v \<Rightarrow> Some v | None \<Rightarrow> na n)
      else na n)"
  by (induction xs arbitrary: na cs) (auto simp: direct_step_def split: option.splits)

lemma direct_fold_constants:
  "set (snd (fold (direct_step dag sa d) xs (na, cs))) =
     set cs \<union> {n \<in> set xs. get_node_op_type dag n = ''Constant''}"
  by (induction xs arbitrary: na cs) (auto simp: direct_step_def split: option.splits)

lemma direct_pass_na:
  "fst (direct_pass dag sa) n =
     (if n \<in> set (topological_sort dag) \<and> get_node_op_type dag n \<noteq> ''Constant''
      then map_of sa (namespace_of (namespace_depth sa) n) else None)"
  by (simp add: direct_pass_def direct_fold_na split: option.splits)

lemma direct_pass_constants:
  "set (snd (direct_pass dag sa)) = {n \<in> set (topological_sort dag). get_node_op_type dag n = ''Constant''}"
  by (simp add: direct_pass_def direct_fold_constants)

lemma direct_pass_values: "fst (direct_pass dag sa) n = Some v \<Longrightarrow> v \<in> snd ` set sa"
  by (auto simp: direct_pass_na split: if_splits dest!: map_of_SomeD intro: rev_image_eqI)


subsection \<open>The next-split pass\<close>

lemma child_splits_ok:
  "\<forall>c\<in>set cs. m c \<noteq> None \<Longrightarrow>
   \<exists>vs. child_splits m cs = Inr vs \<and> set vs = {v. \<exists>c\<in>set cs. m c = Some (Some v)}"
proof (induction cs)
  case Nil
  then show ?case by simp
next
  case (Cons c cs)
  then obtain vs where vs: "child_splits m cs = Inr vs" "set vs = {v. \<exists>c\<in>set cs. m c = Some (Some v)}"
    by auto
  from Cons.prems obtain v where v: "m c = Some v" by auto
  show ?case using vs v by (cases v) auto
qed

lemma next_split_fold:
  assumes "consumers_later dag xs"
    and "\<forall>c\<in>set cs. get_node_op_type dag c = ''Constant''"
    and "\<forall>n. na n \<noteq> None \<longrightarrow> m n \<noteq> None"
  shows "\<exists>m'. for_each (next_split_step dag na cs) (rev xs) m = Inr m'
           \<and> (\<forall>n\<in>set xs. n \<notin> set cs \<longrightarrow> m' n \<noteq> None)
           \<and> (\<forall>n. n \<notin> set xs \<or> na n \<noteq> None \<or> n \<in> set cs \<longrightarrow> m' n = m n)
           \<and> (\<forall>n v. m' n = Some (Some v) \<longrightarrow> (\<exists>n'. m n' = Some (Some v)))"
  using assms
proof (induction xs)
  case Nil
  then show ?case by auto
next
  case (Cons x xs)
  from Cons.prems(1) have later: "consumers_later dag xs"
    and cons: "\<forall>c\<in>set (get_consumers dag x False). c \<in> set xs \<and> get_node_op_type dag c \<noteq> ''Constant''"
    by (auto simp: list_all_iff)
  from Cons.IH[OF later Cons.prems(2,3)] obtain m1 where
    m1: "for_each (next_split_step dag na cs) (rev xs) m = Inr m1"
    and has: "\<forall>n\<in>set xs. n \<notin> set cs \<longrightarrow> m1 n \<noteq> None"
    and frame: "\<forall>n. n \<notin> set xs \<or> na n \<noteq> None \<or> n \<in> set cs \<longrightarrow> m1 n = m n"
    and vals: "\<forall>n v. m1 n = Some (Some v) \<longrightarrow> (\<exists>n'. m n' = Some (Some v))"
    by blast
  have run: "for_each (next_split_step dag na cs) (rev (x # xs)) m = next_split_step dag na cs x m1"
    by (simp add: for_each_append m1 split: sum.splits)
  show ?case
  proof (cases "na x \<noteq> None \<or> x \<in> set cs")
    case True
    then have "next_split_step dag na cs x m1 = Inr m1" by (simp add: next_split_step_def)
    moreover have "\<forall>n\<in>set (x # xs). n \<notin> set cs \<longrightarrow> m1 n \<noteq> None"
      using True has frame Cons.prems(3) by auto
    ultimately show ?thesis using run frame vals by auto
  next
    case False
    have "\<forall>c\<in>set (get_consumers dag x False). m1 c \<noteq> None"
      using cons has Cons.prems(2) by blast
    from child_splits_ok[OF this] obtain vs where
      vs: "child_splits m1 (get_consumers dag x False) = Inr vs"
      and vset: "set vs = {v. \<exists>c\<in>set (get_consumers dag x False). m1 c = Some (Some v)}"
      by blast
    let ?e = "if vs \<noteq> [] then Some (py_min vs) else None"
    have step: "next_split_step dag na cs x m1 = Inr (m1(x \<mapsto> ?e))"
      using False vs by (simp add: next_split_step_def)
    have a: "\<forall>n\<in>set (x # xs). n \<notin> set cs \<longrightarrow> (m1(x \<mapsto> ?e)) n \<noteq> None"
      using has by auto
    have b: "\<forall>n. n \<notin> set (x # xs) \<or> na n \<noteq> None \<or> n \<in> set cs \<longrightarrow> (m1(x \<mapsto> ?e)) n = m n"
      using frame False by auto
    have "vs \<noteq> [] \<Longrightarrow> \<exists>c. m1 c = Some (Some (py_min vs))"
      using py_min_in[of vs] vset by auto
    then have c: "\<forall>n v. (m1(x \<mapsto> ?e)) n = Some (Some v) \<longrightarrow> (\<exists>n'. m n' = Some (Some v))"
      using vals by (auto split: if_splits)
    show ?thesis unfolding run step using a b c by blast
  qed
qed

lemma next_split_pass_ok:
  assumes "topological dag"
    and "\<forall>c\<in>set cs. get_node_op_type dag c = ''Constant''"
  shows "\<exists>ns. next_split_pass dag na cs = Inr ns
           \<and> (\<forall>n\<in>set (topological_sort dag). n \<notin> set cs \<longrightarrow> ns n \<noteq> None)
           \<and> (\<forall>n. n \<notin> set (topological_sort dag) \<or> na n \<noteq> None \<or> n \<in> set cs \<longrightarrow> ns n = map_option Some (na n))
           \<and> (\<forall>n v. ns n = Some (Some v) \<longrightarrow> (\<exists>n'. na n' = Some v))"
proof -
  let ?m = "map_option Some \<circ> na"
  have "\<forall>n. na n \<noteq> None \<longrightarrow> ?m n \<noteq> None" by simp
  from next_split_fold[OF assms(1)[unfolded topological_def] assms(2) this]
  obtain ns where ns: "for_each (next_split_step dag na cs) (rev (topological_sort dag)) ?m = Inr ns"
    and a: "\<forall>n\<in>set (topological_sort dag). n \<notin> set cs \<longrightarrow> ns n \<noteq> None"
    and b: "\<forall>n. n \<notin> set (topological_sort dag) \<or> na n \<noteq> None \<or> n \<in> set cs \<longrightarrow> ns n = ?m n"
    and c: "\<forall>n v. ns n = Some (Some v) \<longrightarrow> (\<exists>n'. ?m n' = Some (Some v))"
    by blast
  have c': "\<forall>n v. ns n = Some (Some v) \<longrightarrow> (\<exists>n'. na n' = Some v)"
  proof (intro allI impI)
    fix n v assume "ns n = Some (Some v)"
    with c obtain n' where "?m n' = Some (Some v)" by blast
    then have "na n' = Some v" by (cases "na n'") auto
    then show "\<exists>n'. na n' = Some v" ..
  qed
  have b': "\<forall>n. n \<notin> set (topological_sort dag) \<or> na n \<noteq> None \<or> n \<in> set cs \<longrightarrow> ns n = map_option Some (na n)"
    using b by simp
  show ?thesis unfolding next_split_pass_def using ns a b' c' by blast
qed


subsection \<open>The inclusive policy\<close>

lemma inclusive_step_cases:
  assumes "n \<notin> set cs \<longrightarrow> ns n \<noteq> None"
    and "\<forall>n v. na n = Some v \<longrightarrow> v \<in> V" and "\<forall>n v. ns n = Some (Some v) \<longrightarrow> v \<in> V" and "0 \<in> V"
  shows "\<exists>na'. inclusive_step dag ns cs n na = Inr na'
           \<and> (n \<notin> set cs \<longrightarrow> na' n \<noteq> None)
           \<and> (\<forall>x. x \<noteq> n \<or> n \<in> set cs \<or> na n \<noteq> None \<longrightarrow> na' x = na x)
           \<and> (\<forall>x v. na' x = Some v \<longrightarrow> v \<in> V)"
proof (cases "na n \<noteq> None \<or> n \<in> set cs")
  case True
  then show ?thesis using assms(2) by (auto simp: inclusive_step_def)
next
  case skip: False
  show ?thesis
  proof (cases "parent_splits dag na n \<noteq> []")
    case True
    from py_max_in[OF True] parent_splits_in assms(2)
    have "py_max (parent_splits dag na n) \<in> V" by blast
    then show ?thesis using skip True assms(2) by (auto simp: inclusive_step_def)
  next
    case False
    from skip assms(1) obtain e where e: "ns n = Some e" by auto
    show ?thesis
    proof (cases e)
      case None
      then show ?thesis using skip False e assms(2,4) by (auto simp: inclusive_step_def)
    next
      case (Some v)
      then have "v \<in> V" using e assms(3) by blast
      then show ?thesis using skip False e Some assms(2) by (auto simp: inclusive_step_def)
    qed
  qed
qed

lemma inclusive_fold:
  assumes "\<forall>n\<in>set xs. n \<notin> set cs \<longrightarrow> ns n \<noteq> None"
    and "\<forall>n v. na n = Some v \<longrightarrow> v \<in> V" and "\<forall>n v. ns n = Some (Some v) \<longrightarrow> v \<in> V" and "0 \<in> V"
  shows "\<exists>na'. for_each (inclusive_step dag ns cs) xs na = Inr na'
           \<and> (\<forall>n\<in>set xs. n \<notin> set cs \<longrightarrow> na' n \<noteq> None)
           \<and> (\<forall>n. n \<notin> set xs \<or> n \<in> set cs \<or> na n \<noteq> None \<longrightarrow> na' n = na n)
           \<and> (\<forall>n v. na' n = Some v \<longrightarrow> v \<in> V)"
  using assms(1,2)
proof (induction xs arbitrary: na)
  case Nil
  then show ?case by simp
next
  case (Cons x xs)
  have "x \<notin> set cs \<longrightarrow> ns x \<noteq> None" using Cons.prems(1) by simp
  from inclusive_step_cases[OF this Cons.prems(2) assms(3,4)] obtain na1 where
    step: "inclusive_step dag ns cs x na = Inr na1"
    and has: "x \<notin> set cs \<longrightarrow> na1 x \<noteq> None"
    and frame: "\<forall>y. y \<noteq> x \<or> x \<in> set cs \<or> na x \<noteq> None \<longrightarrow> na1 y = na y"
    and vals: "\<forall>y v. na1 y = Some v \<longrightarrow> v \<in> V"
    by blast
  have "\<forall>n\<in>set xs. n \<notin> set cs \<longrightarrow> ns n \<noteq> None" using Cons.prems(1) by simp
  from Cons.IH[OF this vals] obtain na' where
    rest: "for_each (inclusive_step dag ns cs) xs na1 = Inr na'"
    and has': "\<forall>n\<in>set xs. n \<notin> set cs \<longrightarrow> na' n \<noteq> None"
    and frame': "\<forall>n. n \<notin> set xs \<or> n \<in> set cs \<or> na1 n \<noteq> None \<longrightarrow> na' n = na1 n"
    and vals': "\<forall>n v. na' n = Some v \<longrightarrow> v \<in> V"
    by blast
  have a: "for_each (inclusive_step dag ns cs) (x # xs) na = Inr na'"
    using step rest by simp
  have b: "\<forall>n\<in>set (x # xs). n \<notin> set cs \<longrightarrow> na' n \<noteq> None"
    using has has' frame' by (metis set_ConsD)
  have c: "\<forall>n. n \<notin> set (x # xs) \<or> n \<in> set cs \<or> na n \<noteq> None \<longrightarrow> na' n = na n"
  proof (intro allI impI)
    fix n assume h: "n \<notin> set (x # xs) \<or> n \<in> set cs \<or> na n \<noteq> None"
    then have 1: "na1 n = na n" using frame by auto
    from h have "n \<notin> set xs \<or> n \<in> set cs \<or> na1 n \<noteq> None" using 1 by auto
    then show "na' n = na n" using frame' 1 by auto
  qed
  show ?case using a b c vals' by blast
qed

subsection \<open>Constant nodes\<close>

lemma set_set_add: "set (set_add v xs) = insert v (set xs)"
  by (auto simp: set_add_def set_insort_key)

lemma distinct_set_add: "distinct xs \<Longrightarrow> distinct (set_add v xs)"
  by (simp add: set_add_def distinct_insort)

lemma collect_splits_ok:
  assumes "\<forall>x\<in>set xs. \<forall>ps. na x \<noteq> Some (Multi ps)"
  shows "\<exists>ps. collect_splits na xs acc = Inr ps
           \<and> set ps = set acc \<union> {v. \<exists>x\<in>set xs. na x = Some (Single v)}
           \<and> (distinct acc \<longrightarrow> distinct ps)"
  using assms
proof (induction xs arbitrary: acc)
  case Nil
  then show ?case by simp
next
  case (Cons x xs)
  show ?case
  proof (cases "na x")
    case None
    then show ?thesis using Cons.IH[of acc] Cons.prems by auto
  next
    case (Some a)
    then obtain v where a: "a = Single v" using Cons.prems by (cases a) auto
    from Cons.IH[of "set_add v acc"] Cons.prems obtain ps where
      "collect_splits na xs (set_add v acc) = Inr ps"
      "set ps = set (set_add v acc) \<union> {v. \<exists>x\<in>set xs. na x = Some (Single v)}"
      "distinct (set_add v acc) \<longrightarrow> distinct ps" by auto
    then show ?thesis using Some a by (auto simp: set_set_add distinct_set_add)
  qed
qed

lemma constant_fold:
  assumes "\<forall>c\<in>set cs. \<forall>x\<in>set (get_consumers dag c False). x \<notin> set cs0"
    and "\<forall>n. n \<notin> set cs0 \<longrightarrow> (\<forall>ps. na n \<noteq> Some (Multi ps))"
    and "set cs \<subseteq> set cs0"
  shows "\<exists>na'. for_each (constant_step dag) cs na = Inr na'
           \<and> (\<forall>n. n \<notin> set cs \<longrightarrow> na' n = na n)
           \<and> (\<forall>n\<in>set cs.
                 if consumer_splits dag na n = {} then na' n = na n
                 else \<exists>ps. na' n = Some (Multi ps) \<and> distinct ps \<and> set ps = consumer_splits dag na n)"
  using assms
proof (induction cs arbitrary: na)
  case Nil
  then show ?case by simp
next
  case (Cons c cs)
  have cons: "\<forall>x\<in>set (get_consumers dag c False). x \<notin> set cs0" using Cons.prems(1) by simp
  then have "\<forall>x\<in>set (get_consumers dag c False). \<forall>ps. na x \<noteq> Some (Multi ps)"
    using Cons.prems(2) by blast
  from collect_splits_ok[OF this, of "[]"] obtain ps where
    ps: "collect_splits na (get_consumers dag c False) [] = Inr ps"
    and pset: "set ps = consumer_splits dag na c" and pd: "distinct ps"
    by (auto simp: consumer_splits_def)
  let ?na1 = "if ps \<noteq> [] then na(c \<mapsto> Multi ps) else na"
  have step: "constant_step dag c na = Inr ?na1" using ps by (simp add: constant_step_def)
  have cin: "c \<in> set cs0" using Cons.prems(3) by simp
  have same: "\<forall>n. n \<notin> set cs0 \<longrightarrow> ?na1 n = na n" using cin by auto
  have cs_eq: "\<forall>n. consumer_splits dag ?na1 n = consumer_splits dag na n \<or> n \<notin> set (c # cs)"
  proof (intro allI)
    fix n
    show "consumer_splits dag ?na1 n = consumer_splits dag na n \<or> n \<notin> set (c # cs)"
    proof (cases "n \<in> set (c # cs)")
      case True
      then have "\<forall>x\<in>set (get_consumers dag n False). x \<noteq> c" using Cons.prems(1) cin by blast
      then show ?thesis by (auto simp: consumer_splits_def)
    qed simp
  qed
  have p1: "\<forall>c\<in>set cs. \<forall>x\<in>set (get_consumers dag c False). x \<notin> set cs0" using Cons.prems(1) by simp
  have p2: "\<forall>n. n \<notin> set cs0 \<longrightarrow> (\<forall>ps. ?na1 n \<noteq> Some (Multi ps))" using same Cons.prems(2) by auto
  have p3: "set cs \<subseteq> set cs0" using Cons.prems(3) by simp
  from Cons.IH[OF p1 p2 p3] obtain na' where
    rest: "for_each (constant_step dag) cs ?na1 = Inr na'"
    and frame: "\<forall>n. n \<notin> set cs \<longrightarrow> na' n = ?na1 n"
    and res: "\<forall>n\<in>set cs. if consumer_splits dag ?na1 n = {} then na' n = ?na1 n
                 else \<exists>ps. na' n = Some (Multi ps) \<and> distinct ps \<and> set ps = consumer_splits dag ?na1 n"
    by blast
  have a: "for_each (constant_step dag) (c # cs) na = Inr na'" using step rest by simp
  have b: "\<forall>n. n \<notin> set (c # cs) \<longrightarrow> na' n = na n" using frame by auto
  have c: "\<forall>n\<in>set (c # cs).
                 if consumer_splits dag na n = {} then na' n = na n
                 else \<exists>ps. na' n = Some (Multi ps) \<and> distinct ps \<and> set ps = consumer_splits dag na n"
  proof
    fix n assume n: "n \<in> set (c # cs)"
    have eq: "consumer_splits dag ?na1 n = consumer_splits dag na n" using cs_eq n by blast
    show "if consumer_splits dag na n = {} then na' n = na n
                 else \<exists>ps. na' n = Some (Multi ps) \<and> distinct ps \<and> set ps = consumer_splits dag na n"
    proof (cases "n \<in> set cs")
      case True
      have keep: "consumer_splits dag na n = {} \<Longrightarrow> ?na1 n = na n"
        using pset by (cases "n = c") auto
      from True res have "if consumer_splits dag ?na1 n = {} then na' n = ?na1 n
          else \<exists>ps. na' n = Some (Multi ps) \<and> distinct ps \<and> set ps = consumer_splits dag ?na1 n"
        by blast
      then show ?thesis unfolding eq using keep by (simp split: if_splits)
    next
      case False
      then have nc: "n = c" using n by simp
      have "na' n = ?na1 n" using frame False by blast
      then show ?thesis using nc pset pd by (auto split: if_splits)
    qed
  qed
  show ?case using a b c by blast
qed


lemma consumers_later_D:
  "consumers_later dag xs \<Longrightarrow> n \<in> set xs \<Longrightarrow> x \<in> set (get_consumers dag n False) \<Longrightarrow>
   x \<in> set xs \<and> get_node_op_type dag x \<noteq> ''Constant''"
  by (induction xs) (auto simp: list_all_iff)

lemma assign_nodes_Inr:
  "assign_nodes dag sa incl = Inr fin \<longleftrightarrow>
     (\<exists>ns na. next_split_pass dag (fst (direct_pass dag sa)) (snd (direct_pass dag sa)) = Inr ns
        \<and> policy_pass dag incl ns (snd (direct_pass dag sa)) (fst (direct_pass dag sa)) = Inr na
        \<and> for_each (constant_step dag) (snd (direct_pass dag sa)) (map_option Single \<circ> na) = Inr fin)"
  by (auto simp: assign_nodes_def split: prod.splits sum.splits)

lemma constants_resolved:
  assumes "topological dag"
    and "\<forall>c\<in>set (snd (direct_pass dag sa)). na c = None"
  shows "\<exists>fin. for_each (constant_step dag) (snd (direct_pass dag sa)) (map_option Single \<circ> na) = Inr fin
           \<and> (\<forall>n. n \<notin> set (topological_sort dag) \<or> get_node_op_type dag n \<noteq> ''Constant''
                  \<longrightarrow> fin n = map_option Single (na n))
           \<and> (\<forall>n\<in>set (topological_sort dag). get_node_op_type dag n = ''Constant'' \<longrightarrow>
                 (if consumer_splits dag fin n = {} then fin n = None
                  else \<exists>ps. fin n = Some (Multi ps) \<and> distinct ps \<and> set ps = consumer_splits dag fin n))"
proof -
  let ?cs = "snd (direct_pass dag sa)"
  let ?na = "map_option Single \<circ> na"
  have cs: "set ?cs = {n \<in> set (topological_sort dag). get_node_op_type dag n = ''Constant''}"
    by (rule direct_pass_constants)
  have p1: "\<forall>c\<in>set ?cs. \<forall>x\<in>set (get_consumers dag c False). x \<notin> set ?cs"
    using consumers_later_D[OF assms(1)[unfolded topological_def]] cs by blast
  have p2: "\<forall>n. n \<notin> set ?cs \<longrightarrow> (\<forall>ps. ?na n \<noteq> Some (Multi ps))" by auto
  from constant_fold[OF p1 p2 subset_refl] obtain fin where
    fin: "for_each (constant_step dag) ?cs ?na = Inr fin"
    and frame: "\<forall>n. n \<notin> set ?cs \<longrightarrow> fin n = ?na n"
    and res: "\<forall>n\<in>set ?cs. if consumer_splits dag ?na n = {} then fin n = ?na n
                 else \<exists>ps. fin n = Some (Multi ps) \<and> distinct ps \<and> set ps = consumer_splits dag ?na n"
    by blast
  have a: "\<forall>n. n \<notin> set (topological_sort dag) \<or> get_node_op_type dag n \<noteq> ''Constant''
                  \<longrightarrow> fin n = map_option Single (na n)"
    using frame cs by auto
  have eq: "consumer_splits dag fin n = consumer_splits dag ?na n" if "n \<in> set ?cs" for n
  proof -
    have "\<forall>x\<in>set (get_consumers dag n False). fin x = ?na x" using p1 that frame by blast
    then show ?thesis by (auto simp: consumer_splits_def)
  qed
  have b: "\<forall>n\<in>set (topological_sort dag). get_node_op_type dag n = ''Constant'' \<longrightarrow>
                 (if consumer_splits dag fin n = {} then fin n = None
                  else \<exists>ps. fin n = Some (Multi ps) \<and> distinct ps \<and> set ps = consumer_splits dag fin n)"
  proof (intro ballI impI)
    fix n assume "n \<in> set (topological_sort dag)" "get_node_op_type dag n = ''Constant''"
    then have n: "n \<in> set ?cs" using cs by simp
    then have "?na n = None" using assms(2) by simp
    then show "if consumer_splits dag fin n = {} then fin n = None
                  else \<exists>ps. fin n = Some (Multi ps) \<and> distinct ps \<and> set ps = consumer_splits dag fin n"
      using res n eq[OF n] by (auto split: if_splits)
  qed
  show ?thesis using fin a b by blast
qed

lemma num_splits_pos: "sa \<noteq> [] \<Longrightarrow> 0 < num_splits sa"
  by (cases sa) (auto simp: num_splits_def)

subsection \<open>Materialization\<close>


lemma py_index_at: "py_index xs i = Inr j \<longleftrightarrow> at_index (length xs) i j"
  by (simp add: at_index_def py_index_def)


lemma at_index_in_range: "0 \<le> i \<Longrightarrow> i < int L \<Longrightarrow> at_index L i j \<longleftrightarrow> j = nat i"
  by (auto simp: at_index_def py_index_def)

lemma at_index_unique: "at_index L i j \<Longrightarrow> at_index L i k \<Longrightarrow> j = k"
  by (simp add: at_index_def)

lemma in_call:
  "j < length sds \<Longrightarrow> x \<in> set (call k c sds ! j) \<longleftrightarrow> x \<in> set (sds ! j) \<or> (j = k \<and> x = c)"
  by (cases "j = k") (auto simp: call_def)

lemma length_call: "length (call k c sds) = length sds"
  by (simp add: call_def)

lemma for_each_accum:
  assumes "for_each f xs s = Inr s'"
    and "\<And>x s s'. x \<in> set xs \<Longrightarrow> f x s = Inr s' \<Longrightarrow>
           len s' = len s \<and> (\<forall>j<len s. M s' j \<longleftrightarrow> M s j \<or> N x (len s) j)"
  shows "len s' = len s \<and> (\<forall>j<len s. M s' j \<longleftrightarrow> M s j \<or> (\<exists>x\<in>set xs. N x (len s) j))"
  using assms
proof (induction xs arbitrary: s)
  case Nil
  then show ?case by simp
next
  case (Cons x xs)
  from Cons.prems(1) obtain s1 where s1: "f x s = Inr s1" "for_each f xs s1 = Inr s'"
    by (auto split: sum.splits)
  have step: "len s1 = len s \<and> (\<forall>j<len s. M s1 j \<longleftrightarrow> M s j \<or> N x (len s) j)"
    using Cons.prems(2)[OF _ s1(1)] by simp
  have rest: "len s' = len s1 \<and> (\<forall>j<len s1. M s' j \<longleftrightarrow> M s1 j \<or> (\<exists>x\<in>set xs. N x (len s1) j))"
  proof (rule Cons.IH[OF s1(2)])
    fix y t t' assume "y \<in> set xs" "f y t = Inr t'"
    then show "len t' = len t \<and> (\<forall>j<len t. M t' j \<longleftrightarrow> M t j \<or> N y (len t) j)"
      using Cons.prems(2)[of y t t'] by simp
  qed
  show ?case using step rest by auto
qed

lemma add_node_input_frame:
  assumes "add_node_input dag p k i st = Inr st'"
    and "\<forall>pr b. x \<noteq> Add_input pr b \<and> x \<noteq> Add_initializer pr b"
  shows "length (fst st') = length (fst st)
         \<and> (\<forall>j<length (fst st). x \<in> set (fst st' ! j) \<longleftrightarrow> x \<in> set (fst st ! j) \<or> False)"
  using assms
  by (cases st) (auto simp: add_node_input_def in_call length_call Let_def split: if_splits list.splits)

lemma inputs_frame:
  assumes "for_each (add_node_input dag p k) names st = Inr st'"
    and "\<forall>pr b. x \<noteq> Add_input pr b \<and> x \<noteq> Add_initializer pr b"
  shows "length (fst st') = length (fst st)
         \<and> (\<forall>j<length (fst st). x \<in> set (fst st' ! j) \<longleftrightarrow> x \<in> set (fst st ! j))"
  using for_each_accum[where len = "\<lambda>s. length (fst s)" and M = "\<lambda>s j. x \<in> set (fst s ! j)"
      and N = "\<lambda>_ _ _. False", OF assms(1)] add_node_input_frame[OF _ assms(2)]
  by auto

lemma process_output_Add_node:
  assumes "process_output dag na p k out st = Inr st'"
  shows "length (fst st') = length (fst st)
         \<and> (\<forall>j<length (fst st). Add_node m \<in> set (fst st' ! j) \<longleftrightarrow> Add_node m \<in> set (fst st ! j) \<or> False)"
  using assms
  by (cases st) (auto simp: process_output_def in_call length_call Let_def split: if_splits list.splits)

lemma process_output_Make_output:
  assumes "process_output dag na p k out st = Inr st'"
  shows "length (fst st') = length (fst st)
         \<and> (\<forall>j<length (fst st). Make_output t \<in> set (fst st' ! j) \<longleftrightarrow>
               Make_output t \<in> set (fst st ! j) \<or> (j = k \<and> t = out \<and> marks_output dag na p out))"
  using assms
  by (cases st) (auto simp: process_output_def marks_output_def in_call length_call Let_def split: if_splits list.splits)

lemma outputs_Add_node:
  assumes "for_each (process_output dag na p k) outs st = Inr st'"
  shows "length (fst st') = length (fst st)
         \<and> (\<forall>j<length (fst st). Add_node m \<in> set (fst st' ! j) \<longleftrightarrow> Add_node m \<in> set (fst st ! j))"
  using for_each_accum[where len = "\<lambda>s. length (fst s)" and M = "\<lambda>s j. Add_node m \<in> set (fst s ! j)"
      and N = "\<lambda>_ _ _. False", OF assms(1)] process_output_Add_node
  by auto

lemma outputs_Make_output:
  assumes "for_each (process_output dag na p k) outs st = Inr st'"
  shows "length (fst st') = length (fst st)
         \<and> (\<forall>j<length (fst st). Make_output t \<in> set (fst st' ! j) \<longleftrightarrow>
               Make_output t \<in> set (fst st ! j) \<or> (j = k \<and> t \<in> set outs \<and> marks_output dag na p t))"
proof -
  have "length (fst st') = length (fst st)
         \<and> (\<forall>j<length (fst st). Make_output t \<in> set (fst st' ! j) \<longleftrightarrow>
               Make_output t \<in> set (fst st ! j) \<or> (\<exists>out\<in>set outs. j = k \<and> t = out \<and> marks_output dag na p out))"
    by (rule for_each_accum[where len = "\<lambda>s. length (fst s)" and M = "\<lambda>s j. Make_output t \<in> set (fst s ! j)"
      and N = "\<lambda>out _ j. j = k \<and> t = out \<and> marks_output dag na p out", OF assms(1)])
       (erule process_output_Make_output)
  then show ?thesis by blast
qed

lemma add_constant_calls:
  assumes "add_constant n idx st = Inr st'"
  shows "length (fst st') = length (fst st)
         \<and> (\<forall>j<length (fst st). x \<in> set (fst st' ! j) \<longleftrightarrow>
               x \<in> set (fst st ! j) \<or> (x = Add_node n \<and> at_index (length (fst st)) idx j))"
  using assms
  by (cases st) (auto simp: add_constant_def in_call length_call py_index_at split: sum.splits dest: at_index_unique)

lemma constants_calls:
  assumes "for_each (add_constant n) ids st = Inr st'"
  shows "length (fst st') = length (fst st)
         \<and> (\<forall>j<length (fst st). x \<in> set (fst st' ! j) \<longleftrightarrow>
               x \<in> set (fst st ! j) \<or> (x = Add_node n \<and> (\<exists>idx\<in>set ids. at_index (length (fst st)) idx j)))"
proof -
  have "length (fst st') = length (fst st)
         \<and> (\<forall>j<length (fst st). x \<in> set (fst st' ! j) \<longleftrightarrow>
               x \<in> set (fst st ! j) \<or> (\<exists>idx\<in>set ids. x = Add_node n \<and> at_index (length (fst st)) idx j))"
    by (rule for_each_accum[where len = "\<lambda>s. length (fst s)" and M = "\<lambda>s j. x \<in> set (fst s ! j)"
      and N = "\<lambda>idx L j. x = Add_node n \<and> at_index L idx j", OF assms(1)])
       (erule add_constant_calls)
  then show ?thesis by blast
qed


lemma materialize_node_Single:
  assumes "materialize_node dag na n st = Inr st'" and "na n = Some (Single p)"
  obtains k sds mvi where "at_index (length (fst st)) p k"
    and "for_each (add_node_input dag p k) (get_node_inputs dag n) st = Inr (sds, mvi)"
    and "for_each (process_output dag na p k) (get_node_outputs dag n)
           (call k (Add_node n) sds, mvi) = Inr st'"
  using assms
  by (auto simp: materialize_node_def py_index_at split: sum.splits prod.splits)

lemma materialize_node_Add_node:
  assumes "materialize_node dag na n st = Inr st'"
  shows "length (fst st') = length (fst st)
         \<and> (\<forall>j<length (fst st). Add_node m \<in> set (fst st' ! j) \<longleftrightarrow>
               Add_node m \<in> set (fst st ! j) \<or> (m = n \<and> placed na (length (fst st)) n j))"
proof (cases "na n")
  case None
  then show ?thesis using assms by (auto simp: materialize_node_def placed_def)
next
  case (Some a)
  show ?thesis
  proof (cases a)
    case (Single p)
    with Some have na: "na n = Some (Single p)" by simp
    from materialize_node_Single[OF assms na] obtain k sds mvi where
      k: "at_index (length (fst st)) p k"
      and ins: "for_each (add_node_input dag p k) (get_node_inputs dag n) st = Inr (sds, mvi)"
      and outs: "for_each (process_output dag na p k) (get_node_outputs dag n)
           (call k (Add_node n) sds, mvi) = Inr st'"
      by blast
    have 1: "length sds = length (fst st)
         \<and> (\<forall>j<length (fst st). Add_node m \<in> set (sds ! j) \<longleftrightarrow> Add_node m \<in> set (fst st ! j))"
      using inputs_frame[OF ins, of "Add_node m"] by simp
    have 2: "length (fst st') = length sds
         \<and> (\<forall>j<length sds. Add_node m \<in> set (fst st' ! j) \<longleftrightarrow> Add_node m \<in> set (call k (Add_node n) sds ! j))"
      using outputs_Add_node[OF outs, of m] by (simp add: length_call)
    have 3: "\<forall>j<length (fst st). at_index (length (fst st)) p j \<longleftrightarrow> j = k"
      using k at_index_unique by blast
    show ?thesis using 1 2 3 na by (auto simp: in_call placed_def)
  next
    case (Multi ps)
    with Some have na: "na n = Some (Multi ps)" by simp
    then have "for_each (add_constant n) ps st = Inr st'"
      using assms by (simp add: materialize_node_def)
    from constants_calls[OF this, of "Add_node m"] na show ?thesis
      by (auto simp: placed_def list_ex_iff)
  qed
qed

lemma materialize_node_Make_output:
  assumes "materialize_node dag na n st = Inr st'"
  shows "length (fst st') = length (fst st)
         \<and> (\<forall>j<length (fst st). Make_output t \<in> set (fst st' ! j) \<longleftrightarrow>
               Make_output t \<in> set (fst st ! j) \<or> output_of dag na (length (fst st)) t n j)"
proof (cases "na n")
  case None
  then show ?thesis using assms by (auto simp: materialize_node_def output_of_def)
next
  case (Some a)
  show ?thesis
  proof (cases a)
    case (Single p)
    with Some have na: "na n = Some (Single p)" by simp
    from materialize_node_Single[OF assms na] obtain k sds mvi where
      k: "at_index (length (fst st)) p k"
      and ins: "for_each (add_node_input dag p k) (get_node_inputs dag n) st = Inr (sds, mvi)"
      and outs: "for_each (process_output dag na p k) (get_node_outputs dag n)
           (call k (Add_node n) sds, mvi) = Inr st'"
      by blast
    have 1: "length sds = length (fst st)
         \<and> (\<forall>j<length (fst st). Make_output t \<in> set (sds ! j) \<longleftrightarrow> Make_output t \<in> set (fst st ! j))"
      using inputs_frame[OF ins, of "Make_output t"] by simp
    have 2: "length (fst st') = length sds
         \<and> (\<forall>j<length sds. Make_output t \<in> set (fst st' ! j) \<longleftrightarrow>
               Make_output t \<in> set (call k (Add_node n) sds ! j)
               \<or> (j = k \<and> t \<in> set (get_node_outputs dag n) \<and> marks_output dag na p t))"
      using outputs_Make_output[OF outs, of t] by (simp add: length_call)
    have 3: "\<forall>j<length (fst st). at_index (length (fst st)) p j \<longleftrightarrow> j = k"
      using k at_index_unique by blast
    show ?thesis using 1 2 3 na by (auto simp: in_call output_of_def)
  next
    case (Multi ps)
    with Some have na: "na n = Some (Multi ps)" by simp
    then have "for_each (add_constant n) ps st = Inr st'"
      using assms by (simp add: materialize_node_def)
    from constants_calls[OF this, of "Make_output t"] na show ?thesis
      by (auto simp: output_of_def)
  qed
qed

lemma materialize_Add_node:
  assumes "materialize dag na L = Inr (sds, mvi)"
  shows "length sds = L
         \<and> (\<forall>j<L. Add_node m \<in> set (sds ! j) \<longleftrightarrow> m \<in> set (topological_sort dag) \<and> placed na L m j)"
proof -
  have "length (fst (sds, mvi)) = length (fst (replicate L ([]::split_dag), []::missing_vi))
         \<and> (\<forall>j<length (fst (replicate L ([]::split_dag), []::missing_vi)).
               Add_node m \<in> set (fst (sds, mvi) ! j) \<longleftrightarrow>
               Add_node m \<in> set (fst (replicate L ([]::split_dag), []::missing_vi) ! j)
               \<or> (\<exists>n\<in>set (topological_sort dag).
                     m = n \<and> placed na (length (fst (replicate L ([]::split_dag), []::missing_vi))) n j))"
    by (rule for_each_accum[where len = "\<lambda>s. length (fst s)"
          and M = "\<lambda>s j. Add_node m \<in> set (fst s ! j)"
          and N = "\<lambda>n L j. m = n \<and> placed na L n j", OF assms[unfolded materialize_def]])
       (erule materialize_node_Add_node)
  then show ?thesis by auto
qed

lemma materialize_Make_output:
  assumes "materialize dag na L = Inr (sds, mvi)"
  shows "length sds = L
         \<and> (\<forall>j<L. Make_output t \<in> set (sds ! j) \<longleftrightarrow>
               (\<exists>n\<in>set (topological_sort dag). output_of dag na L t n j))"
proof -
  have "length (fst (sds, mvi)) = length (fst (replicate L ([]::split_dag), []::missing_vi))
         \<and> (\<forall>j<length (fst (replicate L ([]::split_dag), []::missing_vi)).
               Make_output t \<in> set (fst (sds, mvi) ! j) \<longleftrightarrow>
               Make_output t \<in> set (fst (replicate L ([]::split_dag), []::missing_vi) ! j)
               \<or> (\<exists>n\<in>set (topological_sort dag).
                     output_of dag na (length (fst (replicate L ([]::split_dag), []::missing_vi))) t n j))"
    by (rule for_each_accum[where len = "\<lambda>s. length (fst s)"
          and M = "\<lambda>s j. Make_output t \<in> set (fst s ! j)"
          and N = "\<lambda>n L j. output_of dag na L t n j", OF assms[unfolded materialize_def]])
       (erule materialize_node_Make_output)
  then show ?thesis by auto
qed

lemma placed_Multi_in_range:
  assumes "na n = Some (Multi ps)" and "\<forall>p\<in>set ps. 0 \<le> p \<and> p < int L"
  shows "placed na L n j \<longleftrightarrow> int j \<in> set ps"
proof -
  have "placed na L n j \<longleftrightarrow> (\<exists>p\<in>set ps. at_index L p j)"
    using assms(1) by (simp add: placed_def list_ex_iff)
  also have "\<dots> \<longleftrightarrow> (\<exists>p\<in>set ps. j = nat p)"
    using assms(2) at_index_in_range by blast
  also have "\<dots> \<longleftrightarrow> int j \<in> set ps"
    using assms(2) by (metis nat_int int_nat_eq)
  finally show ?thesis .
qed

subsection \<open>What a step leaves alone\<close>

lemma inclusive_step_frame:
  "inclusive_step dag ns cs x na = Inr na' \<Longrightarrow> n \<noteq> x \<or> n \<in> set cs \<Longrightarrow> na' n = na n"
  by (auto simp: inclusive_step_def split: if_splits option.splits)

lemma exclusive_step_frame:
  "exclusive_step dag ns cs x na = Inr na' \<Longrightarrow> n \<noteq> x \<or> n \<in> set cs \<or> ns n = Some None \<Longrightarrow>
   na' n = na n"
  by (auto simp: exclusive_step_def split: if_splits option.splits)

lemma cast_step_frame:
  "cast_step dag x na = Inr na' \<Longrightarrow> n \<noteq> x \<or> get_node_op_type dag n \<noteq> ''Cast'' \<Longrightarrow> na' n = na n"
  by (auto simp: cast_step_def split: if_splits list.splits)

lemma constant_step_frame:
  "constant_step dag c na = Inr na' \<Longrightarrow> n \<noteq> c \<Longrightarrow> na' n = na n"
  by (auto simp: constant_step_def split: sum.splits if_splits)

lemma policy_pass_frame:
  assumes "policy_pass dag incl ns cs na0 = Inr na"
    and "n \<in> set cs \<or> ns n = Some None \<and> \<not> incl" and "get_node_op_type dag n \<noteq> ''Cast''"
  shows "na n = na0 n"
proof (cases incl)
  case True
  then have "for_each (inclusive_step dag ns cs) (topological_sort dag) na0 = Inr na"
    using assms(1) by (simp add: policy_pass_def)
  then show ?thesis
    using assms(2) True
    by (rule_tac for_each_preserves[where P = "\<lambda>s. s n = na0 n"]) (auto dest: inclusive_step_frame)
next
  case False
  then obtain na1 where
    1: "for_each (exclusive_step dag ns cs) (topological_sort dag) na0 = Inr na1"
    and 2: "for_each (cast_step dag) (topological_sort dag) na1 = Inr na"
    using assms(1) by (auto simp: policy_pass_def split: sum.splits)
  have "na1 n = na0 n"
    using 1 assms(2)
    by (rule_tac for_each_preserves[where P = "\<lambda>s. s n = na0 n"]) (auto dest: exclusive_step_frame)
  moreover have "na n = na1 n"
    using 2 assms(3)
    by (rule_tac for_each_preserves[where P = "\<lambda>s. s n = na1 n"]) (auto dest: cast_step_frame)
  ultimately show ?thesis by simp
qed

lemma constants_frame:
  assumes "for_each (constant_step dag) cs na = Inr fin" and "n \<notin> set cs"
  shows "fin n = na n"
proof (rule for_each_preserves[where P = "\<lambda>s. s n = na n", OF assms(1)])
  show "na n = na n" ..
next
  fix c s s' assume "c \<in> set cs" "s n = na n" "constant_step dag c s = Inr s'"
  moreover from this assms(2) have "n \<noteq> c" by blast
  ultimately show "s' n = na n" using constant_step_frame by metis
qed

subsection \<open>The Cast loop\<close>

lemma cast_fold_frame:
  assumes "for_each (cast_step dag) xs na = Inr na'" and "x \<notin> set xs"
  shows "na' x = na x"
proof (rule for_each_preserves[where P = "\<lambda>s. s x = na x", OF assms(1)])
  show "na x = na x" ..
next
  fix y s s' assume "y \<in> set xs" "s x = na x" "cast_step dag y s = Inr s'"
  moreover from this assms(2) have "x \<noteq> y" by blast
  ultimately show "s' x = na x" using cast_step_frame by metis
qed

lemma cast_step_visit:
  assumes "cast_step dag n na = Inr na'" and "na n = None"
    and "get_node_op_type dag n = ''Cast''" and "get_consumers dag n True = [c]"
    and "get_parents dag n True = par # rest"
  shows "na' = na(n := (if is_input_consumer dag n \<and> na c \<noteq> None then na c
                        else if na par \<noteq> None \<and> is_output_producer dag n then na par
                        else None))"
  using assms by (auto simp: cast_step_def split: if_splits)

lemma cast_loop_visit:
  assumes "for_each (cast_step dag) (pre @ n # post) na1 = Inr na2"
    and "n \<notin> set pre" and "n \<notin> set post"
    and "na1 n = None" and "get_node_op_type dag n = ''Cast''"
    and "get_consumers dag n True = [c]" and "c \<notin> set pre"
    and "get_parents dag n True = par # rest" and "par \<notin> set post" and "par \<noteq> n"
  shows "na2 n = (if is_input_consumer dag n \<and> na1 c \<noteq> None then na1 c
                  else if na2 par \<noteq> None \<and> is_output_producer dag n then na2 par
                  else None)"
proof -
  from assms(1) obtain nv nn where
    pre: "for_each (cast_step dag) pre na1 = Inr nv"
    and visit: "cast_step dag n nv = Inr nn"
    and post: "for_each (cast_step dag) post nn = Inr na2"
    by (auto simp: for_each_append split: sum.splits)
  have nvn: "nv n = None" using cast_fold_frame[OF pre assms(2)] assms(4) by simp
  have nvc: "nv c = na1 c" using cast_fold_frame[OF pre assms(7)] .
  note nn = cast_step_visit[OF visit nvn assms(5,6,8)]
  have "nn par = nv par" using nn assms(10) by simp
  then have par: "na2 par = nv par" using cast_fold_frame[OF post assms(9)] by simp
  have "na2 n = nn n" using cast_fold_frame[OF post assms(3)] .
  then have "na2 n = (if is_input_consumer dag n \<and> nv c \<noteq> None then nv c
                  else if nv par \<noteq> None \<and> is_output_producer dag n then nv par
                  else None)"
    unfolding nn by simp
  then show ?thesis unfolding nvc par .
qed

subsection \<open>The inputs of a node\<close>


















subsection \<open>Missing value-info\<close>

lemma overwrite_value_info_ok:
  "0 \<le> i \<Longrightarrow> i < int (length sds) \<Longrightarrow>
   overwrite_value_info pr i sds = Inr (call (nat i) (Add_value_info pr True) sds)"
  by (simp add: overwrite_value_info_def py_index_def)

lemma overwrite_fold_ok:
  assumes "\<forall>i\<in>set ids. 0 \<le> i \<and> i < int (length sds)"
  shows "\<exists>sds'. for_each (overwrite_value_info pr) ids sds = Inr sds'
           \<and> length sds' = length sds
           \<and> (\<forall>j<length sds. set (sds ! j) \<subseteq> set (sds' ! j))
           \<and> (\<forall>i\<in>set ids. Add_value_info pr True \<in> set (sds' ! nat i))"
  using assms
proof (induction ids arbitrary: sds)
  case Nil
  then show ?case by simp
next
  case (Cons i ids)
  let ?s1 = "call (nat i) (Add_value_info pr True) sds"
  have i: "0 \<le> i" "i < int (length sds)" using Cons.prems by auto
  then have il: "nat i < length sds" by simp
  have step: "overwrite_value_info pr i sds = Inr ?s1"
    using overwrite_value_info_ok[OF i] .
  have "\<forall>i\<in>set ids. 0 \<le> i \<and> i < int (length ?s1)"
    using Cons.prems by (simp add: length_call)
  from Cons.IH[OF this] obtain sds' where
    rest: "for_each (overwrite_value_info pr) ids ?s1 = Inr sds'"
    and len: "length sds' = length ?s1"
    and mono: "\<forall>j<length ?s1. set (?s1 ! j) \<subseteq> set (sds' ! j)"
    and has: "\<forall>i\<in>set ids. Add_value_info pr True \<in> set (sds' ! nat i)"
    by blast
  have a: "for_each (overwrite_value_info pr) (i # ids) sds = Inr sds'"
    using step rest by simp
  have "\<forall>j<length sds. set (sds ! j) \<subseteq> set (?s1 ! j)" by (auto simp: in_call)
  then have b: "\<forall>j<length sds. set (sds ! j) \<subseteq> set (sds' ! j)"
    using mono by (fastforce simp: length_call)
  have "Add_value_info pr True \<in> set (?s1 ! nat i)" using il by (simp add: in_call)
  then have c: "Add_value_info pr True \<in> set (sds' ! nat i)"
    using mono il by (auto simp: length_call)
  show ?case using a len b c has by (auto simp: length_call)
qed

lemma backfill_ok:
  assumes "\<forall>e\<in>set mvi. inferred (fst e) \<noteq> []"
    and "\<forall>e\<in>set mvi. \<forall>i\<in>set (snd e). 0 \<le> i \<and> i < int (length sds)"
  shows "\<exists>sds'. for_each (backfill_entry inferred) mvi sds = Inr sds'
           \<and> length sds' = length sds
           \<and> (\<forall>j<length sds. set (sds ! j) \<subseteq> set (sds' ! j))
           \<and> (\<forall>e\<in>set mvi. \<forall>i\<in>set (snd e).
                 Add_value_info (hd (inferred (fst e))) True \<in> set (sds' ! nat i))"
  using assms
proof (induction mvi arbitrary: sds)
  case Nil
  then show ?case by simp
next
  case (Cons e mvi)
  obtain name ids where e: "e = (name, ids)" by (cases e)
  from Cons.prems(1) e obtain pr ps where pr: "inferred name = pr # ps"
    by (cases "inferred name") auto
  have "\<forall>i\<in>set ids. 0 \<le> i \<and> i < int (length sds)" using Cons.prems(2) e by simp
  from overwrite_fold_ok[OF this, of pr] obtain s1 where
    ow: "for_each (overwrite_value_info pr) ids sds = Inr s1"
    and len1: "length s1 = length sds"
    and mono1: "\<forall>j<length sds. set (sds ! j) \<subseteq> set (s1 ! j)"
    and has1: "\<forall>i\<in>set ids. Add_value_info pr True \<in> set (s1 ! nat i)"
    by blast
  have step: "backfill_entry inferred e sds = Inr s1"
    using ow pr e by (simp add: backfill_entry_def)
  have p1: "\<forall>e\<in>set mvi. inferred (fst e) \<noteq> []" using Cons.prems(1) by simp
  have p2: "\<forall>e\<in>set mvi. \<forall>i\<in>set (snd e). 0 \<le> i \<and> i < int (length s1)"
    using Cons.prems(2) len1 by simp
  from Cons.IH[OF p1 p2] obtain sds' where
    rest: "for_each (backfill_entry inferred) mvi s1 = Inr sds'"
    and len: "length sds' = length s1"
    and mono: "\<forall>j<length s1. set (s1 ! j) \<subseteq> set (sds' ! j)"
    and has: "\<forall>e\<in>set mvi. \<forall>i\<in>set (snd e).
                 Add_value_info (hd (inferred (fst e))) True \<in> set (sds' ! nat i)"
    by blast
  have a: "for_each (backfill_entry inferred) (e # mvi) sds = Inr sds'"
    using step rest by simp
  have b: "\<forall>j<length sds. set (sds ! j) \<subseteq> set (sds' ! j)"
    using mono1 mono len1 by fastforce
  have c: "\<forall>i\<in>set (snd e). Add_value_info (hd (inferred (fst e))) True \<in> set (sds' ! nat i)"
  proof
    fix i assume i: "i \<in> set (snd e)"
    then have "0 \<le> i \<and> i < int (length sds)" using Cons.prems(2) by simp
    then have "nat i < length s1" using len1 by (simp add: nat_less_iff)
    moreover have "Add_value_info pr True \<in> set (s1 ! nat i)" using has1 i e by simp
    ultimately show "Add_value_info (hd (inferred (fst e))) True \<in> set (sds' ! nat i)"
      using mono pr e by auto
  qed
  show ?case using a len len1 b c has by auto
qed

lemma backfill_missing:
  assumes "\<exists>e\<in>set mvi. inferred (fst e) = []"
    and "\<forall>e\<in>set mvi. \<forall>i\<in>set (snd e). 0 \<le> i \<and> i < int (length sds)"
  shows "for_each (backfill_entry inferred) mvi sds = Inl ValueError"
  using assms
proof (induction mvi arbitrary: sds)
  case Nil
  then show ?case by simp
next
  case (Cons e mvi)
  obtain name ids where e: "e = (name, ids)" by (cases e)
  show ?case
  proof (cases "inferred name")
    case Nil
    then show ?thesis using e by (simp add: backfill_entry_def)
  next
    case (Cons pr ps)
    have "\<forall>i\<in>set ids. 0 \<le> i \<and> i < int (length sds)" using Cons.prems(2) e by simp
    from overwrite_fold_ok[OF this, of pr] obtain s1 where
      ow: "for_each (overwrite_value_info pr) ids sds = Inr s1"
      and len1: "length s1 = length sds"
      by blast
    have step: "backfill_entry inferred e sds = Inr s1"
      using ow Cons e by (simp add: backfill_entry_def)
    have p1: "\<exists>e\<in>set mvi. inferred (fst e) = []" using Cons.prems(1) Cons e by auto
    have p2: "\<forall>e\<in>set mvi. \<forall>i\<in>set (snd e). 0 \<le> i \<and> i < int (length s1)"
      using Cons.prems(2) len1 by simp
    show ?thesis using step Cons.IH[OF p1 p2] by simp
  qed
qed

lemma save_all_nth:
  "j < length sds \<Longrightarrow> save_all sds ! j = (split_name j, sds ! j @ [Update])"
  by (simp add: save_all_def nth_enumerate_eq)

lemma length_save_all: "length (save_all sds) = length sds"
  by (simp add: save_all_def)

subsection \<open>The example assignments\<close>

lemma chain_na_agrees:
  "case assign_nodes chain_dag [(''B'', 0), (''C'', 1)] True of
     Inl e \<Rightarrow> False
   | Inr na \<Rightarrow> map na (topological_sort chain_dag) = map chain_na (topological_sort chain_dag)"
  by code_simp

lemma diamond_na_agrees:
  "case assign_nodes diamond_dag [(''P'', 0), (''Q'', 1), (''R'', 2)] True of
     Inl e \<Rightarrow> False
   | Inr na \<Rightarrow>
       map na (topological_sort diamond_dag) = map diamond_na (topological_sort diamond_dag)"
  by code_simp

subsection \<open>The entries of missing_vi\<close>

lemma missing_vi_append_ids:
  assumes "\<forall>e\<in>set m. \<forall>i\<in>set (snd e). P i" and "P p"
  shows "\<forall>e\<in>set (missing_vi_append m x p). \<forall>i\<in>set (snd e). P i"
  using assms by (induction m x p rule: missing_vi_append.induct) auto

lemma add_node_input_ids:
  assumes "add_node_input dag p k y st = Inr st'"
    and "\<forall>e\<in>set (snd st). \<forall>i\<in>set (snd e). P i" and "P p"
  shows "\<forall>e\<in>set (snd st'). \<forall>i\<in>set (snd e). P i"
proof (cases st)
  case (Pair sds mvi)
  have "snd st' = mvi \<or> snd st' = missing_vi_append mvi y p"
    using assms(1) Pair
    by (auto simp: add_node_input_def Let_def split: if_splits list.splits)
  then show ?thesis using assms(2,3) Pair missing_vi_append_ids[of mvi P p y] by auto
qed

lemma process_output_ids:
  assumes "process_output dag na p k y st = Inr st'"
    and "\<forall>e\<in>set (snd st). \<forall>i\<in>set (snd e). P i" and "P p"
  shows "\<forall>e\<in>set (snd st'). \<forall>i\<in>set (snd e). P i"
proof (cases st)
  case (Pair sds mvi)
  have "snd st' = mvi \<or> snd st' = missing_vi_append mvi y p"
    using assms(1) Pair
    by (auto simp: process_output_def Let_def split: if_splits list.splits)
  then show ?thesis using assms(2,3) Pair missing_vi_append_ids[of mvi P p y] by auto
qed

lemma add_constant_ids:
  assumes "add_constant n idx st = Inr st'"
  shows "snd st' = snd st"
  using assms by (cases st) (auto simp: add_constant_def split: sum.splits)

lemma materialize_node_ids:
  assumes "materialize_node dag na n st = Inr st'"
    and "\<forall>e\<in>set (snd st). \<forall>i\<in>set (snd e). 0 \<le> i \<and> i < int (length (fst st))"
    and "\<forall>q. na n = Some (Single q) \<longrightarrow> 0 \<le> q"
  shows "\<forall>e\<in>set (snd st'). \<forall>i\<in>set (snd e). 0 \<le> i \<and> i < int (length (fst st))"
proof (cases "na n")
  case None
  then show ?thesis using assms(1,2) by (simp add: materialize_node_def)
next
  case (Some a)
  show ?thesis
  proof (cases a)
    case (Single p)
    with Some have na: "na n = Some (Single p)" by simp
    let ?P = "\<lambda>i. 0 \<le> i \<and> i < int (length (fst st))"
    from materialize_node_Single[OF assms(1) na] obtain k sds mvi where
      k: "at_index (length (fst st)) p k"
      and ins: "for_each (add_node_input dag p k) (get_node_inputs dag n) st = Inr (sds, mvi)"
      and outs: "for_each (process_output dag na p k) (get_node_outputs dag n)
           (call k (Add_node n) sds, mvi) = Inr st'"
      by blast
    have "0 \<le> p" using assms(3) na by blast
    moreover from k have "p < int (length (fst st))"
      by (auto simp: at_index_def py_index_def split: if_splits)
    ultimately have p: "?P p" by simp
    have 1: "\<forall>e\<in>set (snd (sds, mvi)). \<forall>i\<in>set (snd e). ?P i"
    proof (rule for_each_preserves[where P = "\<lambda>s. \<forall>e\<in>set (snd s). \<forall>i\<in>set (snd e). ?P i",
          OF ins assms(2)])
      fix y s s'
      assume "\<forall>e\<in>set (snd s). \<forall>i\<in>set (snd e). ?P i" "add_node_input dag p k y s = Inr s'"
      then show "\<forall>e\<in>set (snd s'). \<forall>i\<in>set (snd e). ?P i"
        using add_node_input_ids[where P = ?P] p by blast
    qed
    then have 2: "\<forall>e\<in>set (snd (call k (Add_node n) sds, mvi)). \<forall>i\<in>set (snd e). ?P i" by simp
    show ?thesis
    proof (rule for_each_preserves[where P = "\<lambda>s. \<forall>e\<in>set (snd s). \<forall>i\<in>set (snd e). ?P i",
          OF outs 2])
      fix y s s'
      assume "\<forall>e\<in>set (snd s). \<forall>i\<in>set (snd e). ?P i" "process_output dag na p k y s = Inr s'"
      then show "\<forall>e\<in>set (snd s'). \<forall>i\<in>set (snd e). ?P i"
        using process_output_ids[where P = ?P] p by blast
    qed
  next
    case (Multi ps)
    with Some have "for_each (add_constant n) ps st = Inr st'"
      using assms(1) by (simp add: materialize_node_def)
    then have "snd st' = snd st"
      by (rule for_each_preserves[where P = "\<lambda>s. snd s = snd st"]) (auto dest: add_constant_ids)
    then show ?thesis using assms(2) by simp
  qed
qed

lemma materialize_ids:
  assumes "materialize dag na L = Inr (sds, mvi)"
    and "\<forall>n\<in>set (topological_sort dag). \<forall>q. na n = Some (Single q) \<longrightarrow> 0 \<le> q"
  shows "\<forall>e\<in>set mvi. \<forall>i\<in>set (snd e). 0 \<le> i \<and> i < int (length sds)"
proof -
  let ?I = "\<lambda>s. length (fst s) = L
              \<and> (\<forall>e\<in>set (snd s). \<forall>i\<in>set (snd e). 0 \<le> i \<and> i < int L)"
  have "?I (sds, mvi)"
  proof (rule for_each_preserves[where P = ?I, OF assms(1)[unfolded materialize_def]])
    show "?I (replicate L [], [])" by simp
  next
    fix n s s'
    assume n: "n \<in> set (topological_sort dag)" and I: "?I s"
      and step: "materialize_node dag na n s = Inr s'"
    have len: "length (fst s') = length (fst s)"
      using materialize_node_Add_node[OF step] by simp
    have "\<forall>e\<in>set (snd s'). \<forall>i\<in>set (snd e). 0 \<le> i \<and> i < int (length (fst s))"
      using materialize_node_ids[OF step] I n assms(2) by simp
    then show "?I s'" using len I by simp
  qed
  then show ?thesis by simp
qed

lemma finish_backfill:
  assumes "\<forall>e\<in>set mvi. \<forall>i\<in>set (snd e). 0 \<le> i \<and> i < int (length sds)"
  shows "filter is_infer (fst (finish infer_shapes model_proto sds mvi))
           = (if mvi = [] then [] else [Infer_shapes model_proto True])
       \<and> ((\<exists>e\<in>set mvi. infer_shapes model_proto True (fst e) = []) \<longrightarrow>
            finish infer_shapes model_proto sds mvi
              = ([Infer_shapes model_proto True], Inl ValueError))
       \<and> ((\<forall>e\<in>set mvi. infer_shapes model_proto True (fst e) \<noteq> []) \<longrightarrow>
            (\<exists>out. snd (finish infer_shapes model_proto sds mvi) = Inr out
               \<and> length out = length sds
               \<and> (\<forall>e\<in>set mvi. \<forall>i\<in>set (snd e).
                     Add_value_info (hd (infer_shapes model_proto True (fst e))) True
                       \<in> set (snd (out ! nat i)))))"
proof -
  let ?inf = "infer_shapes model_proto True"
  have no_infer: "filter is_infer (map (\<lambda>(name, sd). Save_model name sd) xs) = ([] :: 'a event list)"
    for xs :: "(string \<times> split_dag) list"
    by (induction xs) auto
  have a: "filter is_infer (fst (finish infer_shapes model_proto sds mvi))
           = (if mvi = [] then [] else [Infer_shapes model_proto True])"
    by (auto simp: finish_def resolve_missing_vi_def no_infer split: sum.splits)
  have b: "finish infer_shapes model_proto sds mvi = ([Infer_shapes model_proto True], Inl ValueError)"
    if "\<exists>e\<in>set mvi. ?inf (fst e) = []"
  proof -
    have "mvi \<noteq> []" using that by auto
    then show ?thesis
      using backfill_missing[OF that assms]
      by (simp add: finish_def resolve_missing_vi_def)
  qed
  have c: "\<exists>out. snd (finish infer_shapes model_proto sds mvi) = Inr out
               \<and> length out = length sds
               \<and> (\<forall>e\<in>set mvi. \<forall>i\<in>set (snd e).
                     Add_value_info (hd (?inf (fst e))) True \<in> set (snd (out ! nat i)))"
    if "\<forall>e\<in>set mvi. ?inf (fst e) \<noteq> []"
  proof -
    from backfill_ok[OF that assms] obtain sds' where
      run: "for_each (backfill_entry ?inf) mvi sds = Inr sds'"
      and len: "length sds' = length sds"
      and has: "\<forall>e\<in>set mvi. \<forall>i\<in>set (snd e).
                  Add_value_info (hd (?inf (fst e))) True \<in> set (sds' ! nat i)"
      by blast
    have res: "resolve_missing_vi infer_shapes model_proto sds mvi
                 = (if mvi = [] then [] else [Infer_shapes model_proto True], Inr sds')"
      using run by (cases mvi) (auto simp: resolve_missing_vi_def)
    have out: "snd (finish infer_shapes model_proto sds mvi) = Inr (save_all sds')"
      by (simp add: finish_def res)
    have "Add_value_info (hd (?inf (fst e))) True \<in> set (snd (save_all sds' ! nat i))"
      if "e \<in> set mvi" "i \<in> set (snd e)" for e i
    proof -
      have "0 \<le> i \<and> i < int (length sds)" using assms that by blast
      then have "nat i < length sds'" using len by (simp add: nat_less_iff)
      then show ?thesis using has that by (simp add: save_all_nth)
    qed
    then show ?thesis using out len by (auto simp: length_save_all)
  qed
  show ?thesis using a b c by blast
qed

subsection \<open>The Cast loop leaves a node alone\<close>

lemma cast_step_mono:
  "cast_step dag x s = Inr s' \<Longrightarrow> s y \<noteq> None \<Longrightarrow> s' y = s y"
  by (auto simp: cast_step_def split: if_splits list.splits)

lemma cast_fold_mono:
  assumes "for_each (cast_step dag) xs s = Inr s'" and "s y \<noteq> None"
  shows "s' y = s y"
proof (rule for_each_preserves[where P = "\<lambda>t. t y = s y", OF assms(1)])
  show "s y = s y" ..
next
  fix x t t' assume "t y = s y" "cast_step dag x t = Inr t'"
  then show "t' y = s y" using cast_step_mono[of dag x t t' y] assms(2) by simp
qed

lemma cast_fold_stays_none:
  assumes "for_each (cast_step dag) xs s = Inr s'" and "s n = None"
    and "get_node_op_type dag n \<noteq> ''Cast'' \<or> length (get_consumers dag n True) \<noteq> 1
         \<or> ((\<not> is_input_consumer dag n \<or> s' (hd (get_consumers dag n True)) = None)
            \<and> (\<not> is_output_producer dag n
                 \<or> list_all (\<lambda>par. s' par = None) (take 1 (get_parents dag n True))))"
  shows "s' n = None"
  using assms(1,2)
proof (induction xs arbitrary: s)
  case Nil
  then show ?case by simp
next
  case (Cons x xs)
  from Cons.prems(1) obtain s1 where
    step: "cast_step dag x s = Inr s1" and rest: "for_each (cast_step dag) xs s1 = Inr s'"
    by (auto split: sum.splits)
  have "s1 n = None"
  proof (rule ccontr)
    assume ne: "s1 n \<noteq> None"
    have xn: "x = n"
    proof (rule ccontr)
      assume "x \<noteq> n"
      then have "s1 n = s n" using cast_step_frame[OF step, of n] by auto
      then show False using ne Cons.prems(2) by simp
    qed
    have keep: "s y \<noteq> None \<Longrightarrow> s' y \<noteq> None" for y
      using cast_step_mono[OF step, of y] cast_fold_mono[OF rest, of y] by simp
    from step ne Cons.prems(2) xn
    have op: "get_node_op_type dag n = ''Cast''" "length (get_consumers dag n True) = 1"
      by (auto simp: cast_step_def split: if_splits)
    from step ne Cons.prems(2) xn op
    have "(is_input_consumer dag n \<and> s (hd (get_consumers dag n True)) \<noteq> None)
        \<or> (is_output_producer dag n
             \<and> (\<exists>par rest. get_parents dag n True = par # rest \<and> s par \<noteq> None))"
      by (auto simp: cast_step_def split: if_splits list.splits)
    then consider
        (consumer) "is_input_consumer dag n" "s (hd (get_consumers dag n True)) \<noteq> None"
      | (parent) par rest where "is_output_producer dag n"
          "get_parents dag n True = par # rest" "s par \<noteq> None"
      by blast
    then show False
    proof cases
      case consumer
      then have "s' (hd (get_consumers dag n True)) \<noteq> None" using keep by blast
      then show False using assms(3) op consumer(1) by auto
    next
      case parent
      then have "s' par \<noteq> None" using keep by blast
      then have "\<not> list_all (\<lambda>par. s' par = None) (take 1 (get_parents dag n True))"
        using parent(2) by simp
      then show False using assms(3) op parent(1) by auto
    qed
  qed
  then show ?case using Cons.IH[OF rest] by simp
qed

section \<open>Properties\<close>

text \<open>
  C2. For the chain graph A -> B -> C -> D with namespace depth 1, split assignment map
  {"B": 0, "C": 1} and include_all_nodes = True, the assignment phase completes and
  yields exactly A in partition 0, B in 0, C in 1 and D in 1.
\<close>

theorem chain_inclusive_assignments:
  "namespace_depth [(''B'', 0), (''C'', 1)] = 1 \<and>
   (case assign_nodes chain_dag [(''B'', 0), (''C'', 1)] True of
      Inl e \<Rightarrow> False
    | Inr na \<Rightarrow>
        map na [''A'', ''B'', ''C'', ''D''] =
          [Some (Single 0), Some (Single 0), Some (Single 1), Some (Single 1)])"
  by code_simp

text \<open>
  C1 (as amended). Under the inclusive policy, on a graph in topological order and a
  non-empty split assignment map, the assignment phase completes. Every node that is
  not a Constant is assigned to exactly one partition index, which is 0 or a value of
  the map; the index lies in [0, num_splits) when the values of the map do. Every
  Constant node is assigned the list, without duplicates, of the partitions of its
  assigned consumers, or nothing when it has no assigned consumer.
\<close>

theorem inclusive_assigns_every_node:
  assumes "topological dag" and "sa \<noteq> []"
  shows "\<exists>na. assign_nodes dag sa True = Inr na \<and>
     (\<forall>n\<in>set (topological_sort dag). get_node_op_type dag n \<noteq> ''Constant'' \<longrightarrow>
        (\<exists>p. na n = Some (Single p) \<and> (p = 0 \<or> p \<in> snd ` set sa)
            \<and> (indices_in_range sa \<longrightarrow> 0 \<le> p \<and> p < int (num_splits sa)))) \<and>
     (\<forall>n\<in>set (topological_sort dag). get_node_op_type dag n = ''Constant'' \<longrightarrow>
        (if consumer_splits dag na n = {} then na n = None
         else \<exists>ps. na n = Some (Multi ps) \<and> distinct ps \<and> set ps = consumer_splits dag na n))"
proof -
  let ?na0 = "fst (direct_pass dag sa)"
  let ?cs = "snd (direct_pass dag sa)"
  let ?V = "insert 0 (snd ` set sa)"
  have cs: "set ?cs = {n \<in> set (topological_sort dag). get_node_op_type dag n = ''Constant''}"
    by (rule direct_pass_constants)
  then have csC: "\<forall>c\<in>set ?cs. get_node_op_type dag c = ''Constant''" by simp
  from next_split_pass_ok[OF assms(1) csC, of ?na0] obtain ns where
    ns: "next_split_pass dag ?na0 ?cs = Inr ns"
    and has: "\<forall>n\<in>set (topological_sort dag). n \<notin> set ?cs \<longrightarrow> ns n \<noteq> None"
    and nsv: "\<forall>n v. ns n = Some (Some v) \<longrightarrow> (\<exists>n'. ?na0 n' = Some v)"
    by blast
  have v0: "\<forall>n v. ?na0 n = Some v \<longrightarrow> v \<in> ?V" using direct_pass_values by blast
  have v1: "\<forall>n v. ns n = Some (Some v) \<longrightarrow> v \<in> ?V" using nsv v0 by blast
  from inclusive_fold[OF has v0 v1] obtain na where
    na: "for_each (inclusive_step dag ns ?cs) (topological_sort dag) ?na0 = Inr na"
    and all: "\<forall>n\<in>set (topological_sort dag). n \<notin> set ?cs \<longrightarrow> na n \<noteq> None"
    and frame: "\<forall>n. n \<notin> set (topological_sort dag) \<or> n \<in> set ?cs \<or> ?na0 n \<noteq> None \<longrightarrow> na n = ?na0 n"
    and vals: "\<forall>n v. na n = Some v \<longrightarrow> v \<in> ?V"
    by blast
  have pol: "policy_pass dag True ns ?cs ?na0 = Inr na" using na by (simp add: policy_pass_def)
  have "\<forall>c\<in>set ?cs. na c = None" using frame cs by (auto simp: direct_pass_na)
  from constants_resolved[OF assms(1) this] obtain fin where
    fin: "for_each (constant_step dag) ?cs (map_option Single \<circ> na) = Inr fin"
    and nonconst: "\<forall>n. n \<notin> set (topological_sort dag) \<or> get_node_op_type dag n \<noteq> ''Constant''
                  \<longrightarrow> fin n = map_option Single (na n)"
    and const: "\<forall>n\<in>set (topological_sort dag). get_node_op_type dag n = ''Constant'' \<longrightarrow>
                 (if consumer_splits dag fin n = {} then fin n = None
                  else \<exists>ps. fin n = Some (Multi ps) \<and> distinct ps
                         \<and> set ps = consumer_splits dag fin n)"
    by blast
  have run: "assign_nodes dag sa True = Inr fin"
    unfolding assign_nodes_Inr using ns pol fin by blast
  have range: "0 \<le> p \<and> p < int (num_splits sa)" if "indices_in_range sa" "p \<in> ?V" for p
    using that num_splits_pos[OF assms(2)] by (auto simp: indices_in_range_def list_all_iff)
  have "\<exists>p. fin n = Some (Single p) \<and> (p = 0 \<or> p \<in> snd ` set sa)
            \<and> (indices_in_range sa \<longrightarrow> 0 \<le> p \<and> p < int (num_splits sa))"
    if n: "n \<in> set (topological_sort dag)" "get_node_op_type dag n \<noteq> ''Constant''" for n
  proof -
    from n cs all obtain p where p: "na n = Some p" by auto
    then have "p \<in> ?V" using vals by blast
    moreover have "fin n = Some (Single p)" using nonconst n p by simp
    ultimately show ?thesis using range by blast
  qed
  then show ?thesis using run const by blast
qed

theorem inclusive_assigns_every_node_witness:
  "topological diamond_dag
   \<and> [(''P'', 0), (''Q'', 1), (''R'', 2)] \<noteq> ([] :: split_assignments)
   \<and> indices_in_range [(''P'', 0), (''Q'', 1), (''R'', 2)]
   \<and> (\<exists>na p ps. assign_nodes diamond_dag [(''P'', 0), (''Q'', 1), (''R'', 2)] True = Inr na
          \<and> na ''P'' = Some (Single p) \<and> 0 \<le> p
          \<and> p < int (num_splits [(''P'', 0), (''Q'', 1), (''R'', 2)])
          \<and> na ''K'' = Some (Multi ps) \<and> distinct ps
          \<and> set ps = consumer_splits diamond_dag na ''K'')"
proof -
  let ?sa = "[(''P'', 0), (''Q'', 1), (''R'', 2)] :: split_assignments"
  have h1: "topological diamond_dag" by code_simp
  have h2: "?sa \<noteq> []" by simp
  have h3: "indices_in_range ?sa" by code_simp
  have a: "''P'' \<in> set (topological_sort diamond_dag)"
    "''K'' \<in> set (topological_sort diamond_dag)" by (simp_all add: diamond_dag_def)
  have b: "get_node_op_type diamond_dag ''P'' \<noteq> ''Constant''"
    "get_node_op_type diamond_dag ''K'' = ''Constant''" by (simp_all add: diamond_dag_def)
  from inclusive_assigns_every_node[OF h1 h2] obtain na where
    na: "assign_nodes diamond_dag ?sa True = Inr na"
    and s: "\<forall>n\<in>set (topological_sort diamond_dag).
              get_node_op_type diamond_dag n \<noteq> ''Constant'' \<longrightarrow>
              (\<exists>p. na n = Some (Single p) \<and> (p = 0 \<or> p \<in> snd ` set ?sa)
                 \<and> (indices_in_range ?sa \<longrightarrow> 0 \<le> p \<and> p < int (num_splits ?sa)))"
    and c: "\<forall>n\<in>set (topological_sort diamond_dag).
              get_node_op_type diamond_dag n = ''Constant'' \<longrightarrow>
              (if consumer_splits diamond_dag na n = {} then na n = None
               else \<exists>ps. na n = Some (Multi ps) \<and> distinct ps
                      \<and> set ps = consumer_splits diamond_dag na n)"
    by blast
  from s a(1) b(1) h3 obtain p where
    p: "na ''P'' = Some (Single p)" "0 \<le> p" "p < int (num_splits ?sa)" by blast
  have "''P'' \<in> set (get_consumers diamond_dag ''K'' False)" by (simp add: diamond_dag_def)
  then have "p \<in> consumer_splits diamond_dag na ''K''"
    using p(1) by (auto simp: consumer_splits_def)
  then have ne: "consumer_splits diamond_dag na ''K'' \<noteq> {}" by blast
  have "if consumer_splits diamond_dag na ''K'' = {} then na ''K'' = None
        else \<exists>ps. na ''K'' = Some (Multi ps) \<and> distinct ps
               \<and> set ps = consumer_splits diamond_dag na ''K''"
    using c a(2) b(2) by blast
  then have "\<exists>ps. na ''K'' = Some (Multi ps) \<and> distinct ps
               \<and> set ps = consumer_splits diamond_dag na ''K''"
    using ne by simp
  then obtain ps where
    "na ''K'' = Some (Multi ps)" "distinct ps" "set ps = consumer_splits diamond_dag na ''K''"
    by blast
  with h1 h2 h3 na p show ?thesis by blast
qed

text \<open>
  C1 as stated fails on Constant nodes: in the graph \<open>diamond_dag\<close> the node \<open>K\<close> ends
  with the list of the two partitions 0 and 2, not with one partition index.
\<close>

theorem inclusive_constant_counterexample:
  "''K'' \<in> set (topological_sort diamond_dag) \<and>
   (case assign_nodes diamond_dag [(''P'', 0), (''Q'', 1), (''R'', 2)] True of
      Inl e \<Rightarrow> False
    | Inr na \<Rightarrow> na ''K'' = Some (Multi [0, 2]))"
  by code_simp

text \<open>
  C8 (as amended). The namespace depth of a run is the depth of the first key of the
  split assignment map: the direct pass gives a node that is not a Constant the entry
  of the map for its namespace at that depth. Keys of another depth are not rejected;
  when all keys have one depth, the depth of the run is that depth.
\<close>

theorem namespace_depth_is_first_key_depth:
  "fst (direct_pass dag sa) n =
     (if n \<in> set (topological_sort dag) \<and> get_node_op_type dag n \<noteq> ''Constant''
      then map_of sa (namespace_of (key_depth (fst (hd sa))) n) else None)
   \<and> (sa \<noteq> [] \<and> list_all (\<lambda>k. key_depth k = d) (map fst sa) \<longrightarrow> namespace_depth sa = d)"
proof
  show "fst (direct_pass dag sa) n =
     (if n \<in> set (topological_sort dag) \<and> get_node_op_type dag n \<noteq> ''Constant''
      then map_of sa (namespace_of (key_depth (fst (hd sa))) n) else None)"
    by (simp add: direct_pass_na namespace_depth_def)
  show "sa \<noteq> [] \<and> list_all (\<lambda>k. key_depth k = d) (map fst sa) \<longrightarrow> namespace_depth sa = d"
    by (cases sa) (auto simp: namespace_depth_def)
qed

theorem namespace_depth_is_first_key_depth_witness:
  "[(''B'', 0), (''C'', 1)] \<noteq> ([] :: split_assignments)
   \<and> list_all (\<lambda>k. key_depth k = 1) (map fst [(''B'', 0 :: int), (''C'', 1)])
   \<and> namespace_depth [(''B'', 0), (''C'', 1)] = 1"
proof -
  have h: "[(''B'', 0), (''C'', 1)] \<noteq> ([] :: split_assignments)
     \<and> list_all (\<lambda>k. key_depth k = 1) (map fst [(''B'', 0 :: int), (''C'', 1)])"
    by code_simp
  with namespace_depth_is_first_key_depth[of chain_dag "[(''B'', 0), (''C'', 1)]" "''B''" 1]
  show ?thesis by blast
qed

text \<open>
  C8 as stated fails: the keys \<open>B\<close> and \<open>C.x\<close> have depths 1 and 2, and the run on
  the chain graph is not aborted; it proceeds with depth 1 and returns its two
  sub-graphs.
\<close>

theorem nonuniform_depth_counterexample:
  "key_depth ''B'' = 1 \<and> key_depth ''C.x'' = 2
   \<and> namespace_depth [(''B'', 0), (''C.x'', 1)] = 1
   \<and> (case snd (run_for_config infer_nothing () chain_dag [(''B'', 0), (''C.x'', 1)] True) of
        Inl e \<Rightarrow> False
      | Inr out \<Rightarrow> map fst out = [''split_0'', ''split_1''])"
  by code_simp

text \<open>
  C10. The partition indices of the split assignment map are not validated:
  \<open>num_splits\<close> counts the distinct values and the list of sub-graphs is indexed by the
  raw value. For the map {"B": 0, "C": 2} on the chain graph there are two sub-graphs,
  node C is assigned 2, and materialization ends in an IndexError, under either policy
  and whatever the shape inference returns.
\<close>

theorem noncontiguous_indices_index_error:
  "num_splits sa = card (snd ` set sa)
   \<and> num_splits [(''B'', 0), (''C'', 2)] = 2
   \<and> (case assign_nodes chain_dag [(''B'', 0), (''C'', 2)] True of
        Inl e \<Rightarrow> False
      | Inr na \<Rightarrow> na ''C'' = Some (Single 2) \<and> materialize chain_dag na 2 = Inl IndexError)
   \<and> run_for_config infer_shapes model_proto chain_dag [(''B'', 0), (''C'', 2)] True
       = ([], Inl IndexError)
   \<and> run_for_config infer_shapes model_proto chain_dag [(''B'', 0), (''C'', 2)] False
       = ([], Inl IndexError)"
proof -
  have n: "num_splits [(''B'', 0), (''C'', 2)] = 2" by code_simp
  have a: "case assign_nodes chain_dag [(''B'', 0), (''C'', 2)] True of
        Inl e \<Rightarrow> False
      | Inr na \<Rightarrow> na ''C'' = Some (Single 2) \<and> materialize chain_dag na 2 = Inl IndexError"
    by code_simp
  have b: "case assign_nodes chain_dag [(''B'', 0), (''C'', 2)] False of
        Inl e \<Rightarrow> False
      | Inr na \<Rightarrow> materialize chain_dag na 2 = Inl IndexError"
    by code_simp
  have c: "run_for_config infer_shapes model_proto chain_dag [(''B'', 0), (''C'', 2)] True
       = ([], Inl IndexError)"
    using a n by (auto simp: run_for_config_def split: sum.splits)
  have d: "run_for_config infer_shapes model_proto chain_dag [(''B'', 0), (''C'', 2)] False
       = ([], Inl IndexError)"
    using b n by (auto simp: run_for_config_def split: sum.splits)
  have g: "num_splits sa = card (snd ` set sa)"
    by (simp add: num_splits_def length_remdups_card_conv)
  show ?thesis using g n a c d by blast
qed

text \<open>
  C5. During materialization, a non-empty tensor name produced by a node resolved to the
  partition \<open>p\<close> is marked as an output of sub-graph \<open>p\<close> if and only if one of its
  consumers (the graph-output marker included) is assigned to another partition, to a
  list, or to nothing. The partition indices of the nodes are in [0, L), so that the
  partition \<open>p\<close> is the sub-graph at position \<open>p\<close>.
\<close>

theorem output_marking:
  assumes "materialize dag na L = Inr (sds, mvi)"
    and "\<forall>m\<in>set (topological_sort dag). \<forall>q. na m = Some (Single q) \<longrightarrow> 0 \<le> q \<and> q < int L"
    and "n \<in> set (topological_sort dag)" and "na n = Some (Single p)"
    and "t \<in> set (get_node_outputs dag n)" and "t \<noteq> []"
  shows "Make_output t \<in> set (sds ! nat p) \<longleftrightarrow>
           (\<exists>c\<in>set (get_consumers dag t True). na c \<noteq> Some (Single p))"
proof -
  have p: "0 \<le> p" "p < int L" using assms(2,3,4) by auto
  then have lt: "nat p < L" by simp
  have mo: "marks_output dag na p t \<longleftrightarrow> (\<exists>c\<in>set (get_consumers dag t True). na c \<noteq> Some (Single p))"
    using assms(6) by (simp add: marks_output_def list_ex_iff)
  have "Make_output t \<in> set (sds ! nat p) \<longleftrightarrow>
          (\<exists>m\<in>set (topological_sort dag). output_of dag na L t m (nat p))"
    using materialize_Make_output[OF assms(1)] lt by blast
  also have "\<dots> \<longleftrightarrow> marks_output dag na p t"
  proof
    assume "\<exists>m\<in>set (topological_sort dag). output_of dag na L t m (nat p)"
    then obtain m where m: "m \<in> set (topological_sort dag)" "output_of dag na L t m (nat p)" by blast
    then obtain q where q: "na m = Some (Single q)" "at_index L q (nat p)" "marks_output dag na q t"
      by (auto simp: output_of_def split: option.splits assignment.splits)
    have "0 \<le> q \<and> q < int L" using assms(2) m(1) q(1) by blast
    then have "nat p = nat q" using q(2) at_index_in_range by blast
    then have "q = p" using p(1) \<open>0 \<le> q \<and> q < int L\<close> by (metis int_nat_eq)
    then show "marks_output dag na p t" using q(3) by simp
  next
    assume "marks_output dag na p t"
    then have "output_of dag na L t n (nat p)"
      using assms(4,5) p by (simp add: output_of_def at_index_in_range)
    then show "\<exists>m\<in>set (topological_sort dag). output_of dag na L t m (nat p)"
      using assms(3) by blast
  qed
  finally show ?thesis using mo by simp
qed

theorem output_marking_witness:
  "\<exists>sds mvi. materialize chain_dag chain_na 2 = Inr (sds, mvi)
     \<and> ''B'' \<in> set (topological_sort chain_dag) \<and> chain_na ''B'' = Some (Single 0)
     \<and> ''b'' \<in> set (get_node_outputs chain_dag ''B'')
     \<and> Make_output ''b'' \<in> set (sds ! nat 0)
     \<and> (\<exists>c\<in>set (get_consumers chain_dag ''b'' True). chain_na c \<noteq> Some (Single 0))"
proof -
  have "case materialize chain_dag chain_na 2 of Inl e \<Rightarrow> False | Inr (sds, mvi) \<Rightarrow> length sds = 2"
    by code_simp
  then obtain sds mvi where m: "materialize chain_dag chain_na 2 = Inr (sds, mvi)"
    by (auto split: sum.splits)
  have r: "\<forall>m\<in>set (topological_sort chain_dag). \<forall>q. chain_na m = Some (Single q) \<longrightarrow> 0 \<le> q \<and> q < int 2"
    by (auto simp: chain_dag_def chain_na_def)
  have n: "''B'' \<in> set (topological_sort chain_dag)" by (simp add: chain_dag_def)
  have a: "chain_na ''B'' = Some (Single 0)" by (simp add: chain_na_def)
  have t: "''b'' \<in> set (get_node_outputs chain_dag ''B'')" by (simp add: chain_dag_def)
  have c: "\<exists>c\<in>set (get_consumers chain_dag ''b'' True). chain_na c \<noteq> Some (Single 0)"
    by (simp add: chain_dag_def chain_na_def)
  from output_marking[OF m r n a t] c have "Make_output ''b'' \<in> set (sds ! nat 0)" by simp
  with m n a t c show ?thesis by blast
qed

text \<open>
  C4. On a graph in topological order, under either policy, the final assignment of a
  Constant node is exactly the set of the partitions of its assigned consumers, as a
  list without duplicates; when that set is empty the node has no assignment and the
  materialization loop passes over it without an error. When the partitions of the set
  are in [0, L), materialization adds the node to the sub-graphs of the set and to no
  other sub-graph.
\<close>

theorem constants_replicated:
  assumes "topological dag" and "assign_nodes dag sa incl = Inr na"
    and "n \<in> set (topological_sort dag)" and "get_node_op_type dag n = ''Constant''"
  shows "(if consumer_splits dag na n = {}
          then na n = None \<and> materialize_node dag na n st = Inr st
          else \<exists>ps. na n = Some (Multi ps) \<and> distinct ps \<and> set ps = consumer_splits dag na n)
       \<and> (materialize dag na L = Inr (sds, mvi)
            \<and> (\<forall>p\<in>consumer_splits dag na n. 0 \<le> p \<and> p < int L) \<longrightarrow>
          (\<forall>j<L. Add_node n \<in> set (sds ! j) \<longleftrightarrow> int j \<in> consumer_splits dag na n))"
proof -
  let ?cs = "snd (direct_pass dag sa)"
  let ?na0 = "fst (direct_pass dag sa)"
  from assms(2) obtain ns nai where
    pol: "policy_pass dag incl ns ?cs ?na0 = Inr nai"
    and fin: "for_each (constant_step dag) ?cs (map_option Single \<circ> nai) = Inr na"
    unfolding assign_nodes_Inr by blast
  have cs: "set ?cs = {n \<in> set (topological_sort dag). get_node_op_type dag n = ''Constant''}"
    by (rule direct_pass_constants)
  have "nai c = None" if "c \<in> set ?cs" for c
  proof -
    have "get_node_op_type dag c \<noteq> ''Cast''" using that cs by auto
    then have "nai c = ?na0 c" using policy_pass_frame[OF pol] that by blast
    then show ?thesis using that cs by (simp add: direct_pass_na)
  qed
  then have "\<forall>c\<in>set ?cs. nai c = None" by blast
  from constants_resolved[OF assms(1) this] fin assms(3,4)
  have res: "if consumer_splits dag na n = {} then na n = None
             else \<exists>ps. na n = Some (Multi ps) \<and> distinct ps \<and> set ps = consumer_splits dag na n"
    by auto
  have a: "if consumer_splits dag na n = {}
          then na n = None \<and> materialize_node dag na n st = Inr st
          else \<exists>ps. na n = Some (Multi ps) \<and> distinct ps \<and> set ps = consumer_splits dag na n"
    using res by (auto simp: materialize_node_def split: if_splits)
  have b: "\<forall>j<L. Add_node n \<in> set (sds ! j) \<longleftrightarrow> int j \<in> consumer_splits dag na n"
    if m: "materialize dag na L = Inr (sds, mvi)"
      and r: "\<forall>p\<in>consumer_splits dag na n. 0 \<le> p \<and> p < int L"
  proof (cases "consumer_splits dag na n = {}")
    case True
    then have "na n = None" using res by simp
    then have "\<not> placed na L n j" for j by (simp add: placed_def)
    then show ?thesis using materialize_Add_node[OF m] True by simp
  next
    case False
    then obtain ps where ps: "na n = Some (Multi ps)" "set ps = consumer_splits dag na n"
      using res by auto
    have "placed na L n j \<longleftrightarrow> int j \<in> set ps" for j
      using placed_Multi_in_range[of na n ps L j] ps r by blast
    then show ?thesis using materialize_Add_node[OF m] assms(3) ps(2) by simp
  qed
  show ?thesis using a b by blast
qed

theorem constants_replicated_witness:
  "\<exists>na sds mvi. topological diamond_dag
     \<and> assign_nodes diamond_dag [(''P'', 0), (''Q'', 1), (''R'', 2)] True = Inr na
     \<and> ''K'' \<in> set (topological_sort diamond_dag)
     \<and> get_node_op_type diamond_dag ''K'' = ''Constant''
     \<and> materialize diamond_dag na 3 = Inr (sds, mvi)
     \<and> consumer_splits diamond_dag na ''K'' = {0, 2}
     \<and> Add_node ''K'' \<in> set (sds ! 0) \<and> Add_node ''K'' \<notin> set (sds ! 1)
     \<and> Add_node ''K'' \<in> set (sds ! 2)"
proof -
  let ?sa = "[(''P'', 0), (''Q'', 1), (''R'', 2)] :: split_assignments"
  have "case assign_nodes diamond_dag ?sa True of
          Inl e \<Rightarrow> False
        | Inr na \<Rightarrow> map na [''P'', ''R''] = [Some (Single 0), Some (Single 2)]
            \<and> (case materialize diamond_dag na 3 of Inl e \<Rightarrow> False | Inr r \<Rightarrow> True)"
    by code_simp
  then obtain na sds mvi where na: "assign_nodes diamond_dag ?sa True = Inr na"
    and v: "na ''P'' = Some (Single 0)" "na ''R'' = Some (Single 2)"
    and m: "materialize diamond_dag na 3 = Inr (sds, mvi)"
    by (auto split: sum.splits)
  have t: "topological diamond_dag" by code_simp
  have k: "''K'' \<in> set (topological_sort diamond_dag)" by (simp add: diamond_dag_def)
  have c: "get_node_op_type diamond_dag ''K'' = ''Constant''" by (simp add: diamond_dag_def)
  have s: "consumer_splits diamond_dag na ''K'' = {0, 2}"
    using v by (auto simp: consumer_splits_def diamond_dag_def)
  then have r: "\<forall>p\<in>consumer_splits diamond_dag na ''K''. 0 \<le> p \<and> p < int 3" by simp
  from constants_replicated[OF t na k c, of _ 3 sds mvi] m r s
  have "\<forall>j<3. Add_node ''K'' \<in> set (sds ! j) \<longleftrightarrow> int j \<in> {0, 2}" by simp
  then have "Add_node ''K'' \<in> set (sds ! 0) \<and> Add_node ''K'' \<notin> set (sds ! 1)
     \<and> Add_node ''K'' \<in> set (sds ! 2)" by simp
  with t na k c m s show ?thesis by blast
qed

text \<open>
  C3 (as amended). Under the exclusive policy, on a graph in topological order, a node
  whose next-split entry is None is left unassigned and is added to no sub-graph,
  unless it is a Cast node with exactly one consumer that consumes a graph input and
  has that consumer assigned to a partition, or that produces a graph output and has
  its first parent assigned to a partition. In the chain A -> B -> C -> D with the map
  {"B": 0, "C": 1}, where no node is a Cast and the input of A is not constant, A and D
  stay unassigned and are in no sub-graph.
\<close>

theorem exclusive_drops_after_last_split:
  assumes "topological dag"
    and "next_split_pass dag (fst (direct_pass dag sa)) (snd (direct_pass dag sa)) = Inr ns"
    and "assign_nodes dag sa False = Inr na"
    and "ns n = Some None"
    and "get_node_op_type dag n \<noteq> ''Cast'' \<or> length (get_consumers dag n True) \<noteq> 1
         \<or> ((\<not> is_input_consumer dag n
               \<or> (\<forall>q. na (hd (get_consumers dag n True)) \<noteq> Some (Single q)))
            \<and> (\<not> is_output_producer dag n
                 \<or> list_all (\<lambda>par. \<forall>q. na par \<noteq> Some (Single q))
                      (take 1 (get_parents dag n True))))"
  shows "na n = None
       \<and> (materialize dag na L = Inr (sds, mvi) \<longrightarrow> (\<forall>j<L. Add_node n \<notin> set (sds ! j)))
       \<and> (case assign_nodes chain_dag [(''B'', 0), (''C'', 1)] False of
            Inl e \<Rightarrow> False
          | Inr na' \<Rightarrow> na' ''A'' = None \<and> na' ''D'' = None
              \<and> (case materialize chain_dag na' 2 of
                    Inl e \<Rightarrow> False
                  | Inr (sds', mvi') \<Rightarrow>
                      list_all (\<lambda>sd. Add_node ''A'' \<notin> set sd \<and> Add_node ''D'' \<notin> set sd) sds'))"
proof -
  let ?cs = "snd (direct_pass dag sa)"
  let ?na0 = "fst (direct_pass dag sa)"
  have cs: "set ?cs = {n \<in> set (topological_sort dag). get_node_op_type dag n = ''Constant''}"
    by (rule direct_pass_constants)
  then have csC: "\<forall>c\<in>set ?cs. get_node_op_type dag c = ''Constant''" by simp
  from next_split_pass_ok[OF assms(1) csC, of ?na0] assms(2)
  have frame: "\<forall>n. n \<notin> set (topological_sort dag) \<or> ?na0 n \<noteq> None \<or> n \<in> set ?cs
                 \<longrightarrow> ns n = map_option Some (?na0 n)"
    by auto
  have n0: "?na0 n = None"
  proof (rule ccontr)
    assume "?na0 n \<noteq> None"
    then obtain v where "?na0 n = Some v" by auto
    then have "ns n = Some (Some v)" using frame by simp
    then show False using assms(4) by simp
  qed
  have ncs: "n \<notin> set ?cs"
  proof
    assume "n \<in> set ?cs"
    then have "ns n = map_option Some (?na0 n)" using frame by blast
    then show False using n0 assms(4) by simp
  qed
  from assms(3) obtain ns' nai where
    ns': "next_split_pass dag ?na0 ?cs = Inr ns'"
    and pol': "policy_pass dag False ns' ?cs ?na0 = Inr nai"
    and fin: "for_each (constant_step dag) ?cs (map_option Single \<circ> nai) = Inr na"
    unfolding assign_nodes_Inr by blast
  have "ns' = ns" using ns' assms(2) by simp
  then have pol: "policy_pass dag False ns ?cs ?na0 = Inr nai" using pol' by simp
  then obtain na1 where
    main: "for_each (exclusive_step dag ns ?cs) (topological_sort dag) ?na0 = Inr na1"
    and cast: "for_each (cast_step dag) (topological_sort dag) na1 = Inr nai"
    by (auto simp: policy_pass_def split: sum.splits)
  have "na1 n = ?na0 n"
  proof (rule for_each_preserves[where P = "\<lambda>s. s n = ?na0 n", OF main])
    show "?na0 n = ?na0 n" ..
  next
    fix x s s' assume "s n = ?na0 n" "exclusive_step dag ns ?cs x s = Inr s'"
    then show "s' n = ?na0 n" using exclusive_step_frame[of dag ns ?cs x s s' n] assms(4) by simp
  qed
  then have na1n: "na1 n = None" using n0 by simp
  have single: "na x = Some (Single q)" if "nai x = Some q" for x q
  proof (cases "x \<in> set ?cs")
    case True
    then have "get_node_op_type dag x \<noteq> ''Cast''" using cs by auto
    then have "nai x = ?na0 x" using policy_pass_frame[OF pol] True by blast
    then have "nai x = None" using True cs by (simp add: direct_pass_na)
    then show ?thesis using that by simp
  next
    case False
    then show ?thesis using constants_frame[OF fin False] that by simp
  qed
  then have none: "nai x = None" if "\<forall>q. na x \<noteq> Some (Single q)" for x
    using that by (cases "nai x") auto
  let ?c = "hd (get_consumers dag n True)"
  let ?ps = "take 1 (get_parents dag n True)"
  have c1: "nai ?c = None" if "\<forall>q. na ?c \<noteq> Some (Single q)"
    using none[OF that] .
  have c2: "list_all (\<lambda>par. nai par = None) ?ps"
    if h: "list_all (\<lambda>par. \<forall>q. na par \<noteq> Some (Single q)) ?ps"
    unfolding list_all_iff
  proof
    fix par assume "par \<in> set ?ps"
    then have "\<forall>q. na par \<noteq> Some (Single q)" using h unfolding list_all_iff by blast
    then show "nai par = None" by (rule none)
  qed
  have cond: "get_node_op_type dag n \<noteq> ''Cast'' \<or> length (get_consumers dag n True) \<noteq> 1
         \<or> ((\<not> is_input_consumer dag n \<or> nai ?c = None)
            \<and> (\<not> is_output_producer dag n \<or> list_all (\<lambda>par. nai par = None) ?ps))"
  proof (cases "get_node_op_type dag n \<noteq> ''Cast'' \<or> length (get_consumers dag n True) \<noteq> 1")
    case True
    then show ?thesis by blast
  next
    case False
    with assms(5) have
      i: "\<not> is_input_consumer dag n \<or> (\<forall>q. na ?c \<noteq> Some (Single q))"
      and o: "\<not> is_output_producer dag n
                \<or> list_all (\<lambda>par. \<forall>q. na par \<noteq> Some (Single q)) ?ps"
      by simp_all
    from i have i': "\<not> is_input_consumer dag n \<or> nai ?c = None"
    proof
      assume "\<not> is_input_consumer dag n" then show ?thesis ..
    next
      assume "\<forall>q. na ?c \<noteq> Some (Single q)"
      then have "nai ?c = None" by (rule c1)
      then show ?thesis ..
    qed
    from o have o': "\<not> is_output_producer dag n \<or> list_all (\<lambda>par. nai par = None) ?ps"
    proof
      assume "\<not> is_output_producer dag n" then show ?thesis ..
    next
      assume "list_all (\<lambda>par. \<forall>q. na par \<noteq> Some (Single q)) ?ps"
      then have "list_all (\<lambda>par. nai par = None) ?ps" by (rule c2)
      then show ?thesis ..
    qed
    show ?thesis using i' o' by simp
  qed
  have "nai n = None" by (rule cast_fold_stays_none[OF cast na1n cond])
  then have a: "na n = None" using constants_frame[OF fin ncs] by simp
  have b: "\<forall>j<L. Add_node n \<notin> set (sds ! j)" if "materialize dag na L = Inr (sds, mvi)"
    using materialize_Add_node[OF that, of n] a by (simp add: placed_def)
  have c: "case assign_nodes chain_dag [(''B'', 0), (''C'', 1)] False of
            Inl e \<Rightarrow> False
          | Inr na' \<Rightarrow> na' ''A'' = None \<and> na' ''D'' = None
              \<and> (case materialize chain_dag na' 2 of
                    Inl e \<Rightarrow> False
                  | Inr (sds', mvi') \<Rightarrow>
                      list_all (\<lambda>sd. Add_node ''A'' \<notin> set sd \<and> Add_node ''D'' \<notin> set sd) sds')"
    by code_simp
  show ?thesis using a b c by blast
qed

theorem exclusive_drops_after_last_split_witness:
  "\<exists>ns na. topological cast2_dag
     \<and> next_split_pass cast2_dag (fst (direct_pass cast2_dag [(''B'', 0)]))
         (snd (direct_pass cast2_dag [(''B'', 0)])) = Inr ns
     \<and> assign_nodes cast2_dag [(''B'', 0)] False = Inr na
     \<and> ns ''X'' = Some None \<and> get_node_op_type cast2_dag ''X'' = ''Cast''
     \<and> length (get_consumers cast2_dag ''X'' True) \<noteq> 1
     \<and> na ''X'' = None"
proof -
  let ?sa = "[(''B'', 0)] :: split_assignments"
  have t: "topological cast2_dag" by code_simp
  have "case next_split_pass cast2_dag (fst (direct_pass cast2_dag ?sa))
               (snd (direct_pass cast2_dag ?sa)) of
          Inl e \<Rightarrow> False | Inr ns \<Rightarrow> ns ''X'' = Some None"
    by code_simp
  then obtain ns where ns: "next_split_pass cast2_dag (fst (direct_pass cast2_dag ?sa))
               (snd (direct_pass cast2_dag ?sa)) = Inr ns" and d: "ns ''X'' = Some None"
    by (auto split: sum.splits)
  have "case assign_nodes cast2_dag ?sa False of Inl e \<Rightarrow> False | Inr na \<Rightarrow> True"
    by code_simp
  then obtain na where na: "assign_nodes cast2_dag ?sa False = Inr na"
    by (auto split: sum.splits)
  have o: "get_node_op_type cast2_dag ''X'' = ''Cast''" by (simp add: cast2_dag_def)
  have l: "length (get_consumers cast2_dag ''X'' True) \<noteq> 1" by (simp add: cast2_dag_def)
  have "na ''X'' = None"
    using exclusive_drops_after_last_split[OF t ns na d] l by blast
  with t ns na d o l show ?thesis by blast
qed

text \<open>
  C3 as stated fails on a Cast node: in \<open>cast_dag\<close> with the map {"B": 0} the node
  \<open>Co\<close> has the next-split entry None, exactly one consumer, produces the graph output
  and has its parent \<open>B\<close> in partition 0; the exclusive policy assigns it to partition 0
  and adds it to sub-graph 0.
\<close>

theorem exclusive_cast_counterexample:
  "(case next_split_pass cast_dag (fst (direct_pass cast_dag [(''B'', 0)]))
           (snd (direct_pass cast_dag [(''B'', 0)])) of
      Inl e \<Rightarrow> False
    | Inr ns \<Rightarrow> ns ''Co'' = Some None)
   \<and> (case assign_nodes cast_dag [(''B'', 0)] False of
        Inl e \<Rightarrow> False
      | Inr na \<Rightarrow> na ''Co'' = Some (Single 0)
          \<and> (case materialize cast_dag na (num_splits [(''B'', 0)]) of
                Inl e \<Rightarrow> False
              | Inr (sds, mvi) \<Rightarrow> Add_node ''Co'' \<in> set (sds ! 0)))"
  by code_simp

text \<open>
  C7. Under the exclusive policy, a Cast node that the main pass left unassigned and
  that has exactly one consumer (special outputs counted), visited once by the Cast
  loop after its parent and before its consumer, ends as follows: if it consumes a
  graph input and its consumer is assigned, with the consumer's partition; otherwise,
  if its parent is assigned and it produces a graph output, with the parent's
  partition; otherwise unassigned. That value is its final assignment, and when it is a
  partition in [0, L) the node is added to the sub-graph of that partition.
\<close>

theorem cast_inherits_partition:
  assumes "next_split_pass dag (fst (direct_pass dag sa)) (snd (direct_pass dag sa)) = Inr ns"
    and "for_each (exclusive_step dag ns (snd (direct_pass dag sa))) (topological_sort dag)
           (fst (direct_pass dag sa)) = Inr na1"
    and "for_each (cast_step dag) (topological_sort dag) na1 = Inr na2"
    and "assign_nodes dag sa False = Inr fin"
    and "topological_sort dag = pre @ n # post" and "n \<notin> set pre" and "n \<notin> set post"
    and "na1 n = None" and "get_node_op_type dag n = ''Cast''"
    and "get_consumers dag n True = [c]" and "c \<notin> set pre"
    and "get_parents dag n True = par # rest" and "par \<notin> set post" and "par \<noteq> n"
  shows "na2 n = (if is_input_consumer dag n \<and> na1 c \<noteq> None then na1 c
                  else if na2 par \<noteq> None \<and> is_output_producer dag n then na2 par
                  else None)
       \<and> fin n = map_option Single (na2 n)
       \<and> (materialize dag fin L = Inr (sds, mvi) \<and> na2 n = Some p \<and> 0 \<le> p \<and> p < int L
            \<longrightarrow> Add_node n \<in> set (sds ! nat p))"
proof -
  let ?cs = "snd (direct_pass dag sa)"
  let ?na0 = "fst (direct_pass dag sa)"
  have a: "na2 n = (if is_input_consumer dag n \<and> na1 c \<noteq> None then na1 c
                  else if na2 par \<noteq> None \<and> is_output_producer dag n then na2 par
                  else None)"
    by (rule cast_loop_visit[OF assms(3)[unfolded assms(5)] assms(6-14)])
  have pol: "policy_pass dag False ns ?cs ?na0 = Inr na2"
    using assms(2,3) by (simp add: policy_pass_def)
  from assms(4) obtain ns' nai where
    ns': "next_split_pass dag ?na0 ?cs = Inr ns'"
    and pol': "policy_pass dag False ns' ?cs ?na0 = Inr nai"
    and fin: "for_each (constant_step dag) ?cs (map_option Single \<circ> nai) = Inr fin"
    unfolding assign_nodes_Inr by blast
  have "ns' = ns" using ns' assms(1) by simp
  then have "nai = na2" using pol pol' by simp
  moreover have "n \<notin> set ?cs" using assms(9) by (simp add: direct_pass_constants)
  ultimately have b: "fin n = map_option Single (na2 n)"
    using constants_frame[OF fin] by simp
  have c: "Add_node n \<in> set (sds ! nat p)"
    if m: "materialize dag fin L = Inr (sds, mvi)" and p: "na2 n = Some p" "0 \<le> p" "p < int L"
  proof -
    have "fin n = Some (Single p)" using b p(1) by simp
    then have "placed fin L n (nat p)" using p(2,3) by (simp add: placed_def at_index_in_range)
    moreover have "n \<in> set (topological_sort dag)" using assms(5) by simp
    moreover have "nat p < L" using p(2,3) by simp
    ultimately show ?thesis using materialize_Add_node[OF m, of n] by blast
  qed
  show ?thesis using a b c by blast
qed

theorem cast_inherits_partition_witness:
  "\<exists>ns na1 na2 fin sds mvi.
     next_split_pass cast_dag (fst (direct_pass cast_dag [(''B'', 0)]))
       (snd (direct_pass cast_dag [(''B'', 0)])) = Inr ns
   \<and> for_each (exclusive_step cast_dag ns (snd (direct_pass cast_dag [(''B'', 0)])))
       (topological_sort cast_dag) (fst (direct_pass cast_dag [(''B'', 0)])) = Inr na1
   \<and> for_each (cast_step cast_dag) (topological_sort cast_dag) na1 = Inr na2
   \<and> assign_nodes cast_dag [(''B'', 0)] False = Inr fin
   \<and> topological_sort cast_dag = [] @ ''Ci'' # [''B'', ''Co'']
   \<and> na1 ''Ci'' = None \<and> get_node_op_type cast_dag ''Ci'' = ''Cast''
   \<and> get_consumers cast_dag ''Ci'' True = [''B'']
   \<and> get_parents cast_dag ''Ci'' True = ''__input__'' # []
   \<and> is_input_consumer cast_dag ''Ci'' \<and> na1 ''B'' = Some 0
   \<and> materialize cast_dag fin 1 = Inr (sds, mvi)
   \<and> na2 ''Ci'' = Some 0 \<and> fin ''Ci'' = Some (Single 0) \<and> Add_node ''Ci'' \<in> set (sds ! nat 0)"
proof -
  let ?sa = "[(''B'', 0)] :: split_assignments"
  let ?cs = "snd (direct_pass cast_dag ?sa)"
  let ?na0 = "fst (direct_pass cast_dag ?sa)"
  have "case next_split_pass cast_dag ?na0 ?cs of
          Inl e \<Rightarrow> False
        | Inr ns \<Rightarrow>
            (case for_each (exclusive_step cast_dag ns ?cs) (topological_sort cast_dag) ?na0 of
               Inl e \<Rightarrow> False
             | Inr na1 \<Rightarrow> na1 ''Ci'' = None \<and> na1 ''B'' = Some 0
                 \<and> (case for_each (cast_step cast_dag) (topological_sort cast_dag) na1 of
                       Inl e \<Rightarrow> False | Inr na2 \<Rightarrow> True))"
    by code_simp
  then obtain ns na1 na2 where
    ns: "next_split_pass cast_dag ?na0 ?cs = Inr ns"
    and na1: "for_each (exclusive_step cast_dag ns ?cs) (topological_sort cast_dag) ?na0 = Inr na1"
    and v: "na1 ''Ci'' = None" "na1 ''B'' = Some 0"
    and na2: "for_each (cast_step cast_dag) (topological_sort cast_dag) na1 = Inr na2"
    by (auto split: sum.splits)
  have "case assign_nodes cast_dag ?sa False of
          Inl e \<Rightarrow> False
        | Inr fin \<Rightarrow> (case materialize cast_dag fin 1 of Inl e \<Rightarrow> False | Inr r \<Rightarrow> True)"
    by code_simp
  then obtain fin sds mvi where fin: "assign_nodes cast_dag ?sa False = Inr fin"
    and m: "materialize cast_dag fin 1 = Inr (sds, mvi)"
    by (auto split: sum.splits)
  have ord: "topological_sort cast_dag = [] @ ''Ci'' # [''B'', ''Co'']" by (simp add: cast_dag_def)
  have op: "get_node_op_type cast_dag ''Ci'' = ''Cast''" by (simp add: cast_dag_def)
  have cons: "get_consumers cast_dag ''Ci'' True = [''B'']" by (simp add: cast_dag_def)
  have par: "get_parents cast_dag ''Ci'' True = ''__input__'' # []" by (simp add: cast_dag_def)
  have ic: "is_input_consumer cast_dag ''Ci''" by (simp add: cast_dag_def)
  have r: "na2 ''Ci'' = Some 0 \<and> fin ''Ci'' = Some (Single 0) \<and> Add_node ''Ci'' \<in> set (sds ! nat 0)"
    using cast_inherits_partition[OF ns na1 na2 fin ord _ _ v(1) op cons _ par, of 1 sds mvi 0]
      m ic v(2) by simp
  show ?thesis using ns na1 na2 fin ord v op cons par ic m r by blast
qed



text \<open>
  C9. In a run that reaches the end of materialization (with no negative partition
  index), the shape inference is called exactly once, on the original model with
  \<^verbatim>\<open>auto_merge=True\<close>, when \<^verbatim>\<open>missing_vi\<close> is not empty, and not at all when it is
  empty. If some recorded name has no value-info in the inferred graph, the run ends in
  a ValueError and the inference call is its only event: no sub-graph is saved.
  Otherwise the run returns the sub-graphs, and for each recorded (name, p) the
  sub-graph \<open>p\<close> has received the inferred value-info of the name with
  \<^verbatim>\<open>overwrite=True\<close>.
\<close>

theorem shape_inference_backfill:
  assumes "sa \<noteq> []"
    and "assign_nodes dag sa incl = Inr na"
    and "materialize dag na (num_splits sa) = Inr (sds, mvi)"
    and "\<forall>n\<in>set (topological_sort dag). \<forall>q. na n = Some (Single q) \<longrightarrow> 0 \<le> q"
  shows "filter is_infer (fst (run_for_config infer_shapes model_proto dag sa incl))
           = (if mvi = [] then [] else [Infer_shapes model_proto True])
       \<and> ((\<exists>e\<in>set mvi. infer_shapes model_proto True (fst e) = []) \<longrightarrow>
            run_for_config infer_shapes model_proto dag sa incl
              = ([Infer_shapes model_proto True], Inl ValueError))
       \<and> ((\<forall>e\<in>set mvi. infer_shapes model_proto True (fst e) \<noteq> []) \<longrightarrow>
            (\<exists>out. snd (run_for_config infer_shapes model_proto dag sa incl) = Inr out
               \<and> length out = num_splits sa
               \<and> (\<forall>e\<in>set mvi. \<forall>i\<in>set (snd e).
                     Add_value_info (hd (infer_shapes model_proto True (fst e))) True
                       \<in> set (snd (out ! nat i)))))"
proof -
  have run: "run_for_config infer_shapes model_proto dag sa incl
               = finish infer_shapes model_proto sds mvi"
    using assms(1,2,3) by (simp add: run_for_config_def)
  have len: "length sds = num_splits sa"
    using materialize_Add_node[OF assms(3)] by simp
  note ids = materialize_ids[OF assms(3,4)]
  show ?thesis
    unfolding run using finish_backfill[OF ids, of infer_shapes model_proto] len by simp
qed

theorem shape_inference_backfill_witness:
  "run_for_config infer_nothing () chain_dag [(''B'', 0), (''C'', 1)] True
     = ([Infer_shapes () True], Inl ValueError)
   \<and> filter is_infer (fst (run_for_config infer_all () chain_dag [(''B'', 0), (''C'', 1)] True))
       = [Infer_shapes () True]
   \<and> (\<exists>out. snd (run_for_config infer_all () chain_dag [(''B'', 0), (''C'', 1)] True) = Inr out
         \<and> Add_value_info (ValueInfoProto ''b'' (Some 7)) True \<in> set (snd (out ! nat 1)))"
proof -
  let ?sa = "[(''B'', 0), (''C'', 1)] :: split_assignments"
  have "case assign_nodes chain_dag ?sa True of
          Inl e \<Rightarrow> False
        | Inr na \<Rightarrow>
            map na [''A'', ''B'', ''C'', ''D'']
              = [Some (Single 0), Some (Single 0), Some (Single 1), Some (Single 1)]
            \<and> (case materialize chain_dag na (num_splits ?sa) of
                  Inl e \<Rightarrow> False
                | Inr (sds, mvi) \<Rightarrow> mvi = [(''b'', [0, 1])])"
    by code_simp
  then obtain na sds where na: "assign_nodes chain_dag ?sa True = Inr na"
    and v: "map na [''A'', ''B'', ''C'', ''D'']
              = [Some (Single 0), Some (Single 0), Some (Single 1), Some (Single 1)]"
    and m: "materialize chain_dag na (num_splits ?sa) = Inr (sds, [(''b'', [0, 1])])"
    by (auto split: sum.splits)
  have s: "?sa \<noteq> []" by simp
  have r: "\<forall>n\<in>set (topological_sort chain_dag). \<forall>q. na n = Some (Single q) \<longrightarrow> 0 \<le> q"
    using v by (auto simp: chain_dag_def)
  note t = shape_inference_backfill[OF s na m r]
  have n: "\<exists>e\<in>set [(''b'', [0, 1::int])]. infer_nothing () True (fst e) = []"
    by (simp add: infer_nothing_def)
  have y: "\<forall>e\<in>set [(''b'', [0, 1::int])]. infer_all () True (fst e) \<noteq> []"
    by (simp add: infer_all_def)
  have 1: "run_for_config infer_nothing () chain_dag ?sa True
             = ([Infer_shapes () True], Inl ValueError)"
    using t[of infer_nothing "()"] n by blast
  have 2: "filter is_infer (fst (run_for_config infer_all () chain_dag ?sa True))
             = [Infer_shapes () True]"
    using t[of infer_all "()"] by simp
  from t[of infer_all "()"] y obtain out where
    out: "snd (run_for_config infer_all () chain_dag ?sa True) = Inr out"
    and has: "\<forall>e\<in>set [(''b'', [0, 1::int])]. \<forall>i\<in>set (snd e).
                Add_value_info (hd (infer_all () True (fst e))) True \<in> set (snd (out ! nat i))"
    by blast
  have 3: "Add_value_info (ValueInfoProto ''b'' (Some 7)) True \<in> set (snd (out ! nat 1))"
    using has by (simp add: infer_all_def)
  show ?thesis using 1 2 out 3 by blast
qed

end
